theory Spec2Isabelle
  imports Main "HOL-Library.List_Lexorder"
begin

section \<open>The helper module \<open>_count.pyx\<close> of pydmc\<close>

text \<open>
  The module holds two iterator classes over a C array of \<open>int\<close> (\<open>_IntArray\<close>),
  three closed-form permutation counters and three fixed-arity sorting routines.
  Every method is translated as a function on an explicit state record; an exception
  is a value \<open>Inl e\<close> of the result.

  C \<open>int\<close> values are modelled as HOL integers. Where the source computes with them
  (\<open>limits[i] - 1\<close>, \<open>T[g] + 1\<close>, \<open>T[im] + increments[i]\<close>) the result is wrapped
  to 32 bits by \<open>c_int\<close>. Where \<open>LexicographicIterator.__init__\<close> stores a Python
  integer into a C \<open>int\<close> (the entries of \<open>limits\<close>, \<open>index_map\<close> and
  \<open>increments\<close>), an integer that is not representable in 32 bits raises
  \<open>OverflowError\<close>.
\<close>

datatype error = TypeError | IndexError | ValueError | OverflowError | StopIteration

definition c_int :: "int \<Rightarrow> int" where
  "c_int x = (x + 2147483648) mod 4294967296 - 2147483648"

text \<open>The Python integers that a C \<open>int\<close> can hold.\<close>

definition fits_c_int :: "int \<Rightarrow> bool" where
  "fits_c_int x \<longleftrightarrow> - 2147483648 \<le> x \<and> x < 2147483648"

text \<open>
  A read of a C array. Inside the array it returns the stored value. Outside of it
  (or in a freshly allocated, never written cell) C leaves the value open: the model
  takes it as the parameter \<open>u\<close>, and every statement below holds for every \<open>u\<close>.
\<close>

definition c_read :: "int \<Rightarrow> int list \<Rightarrow> int \<Rightarrow> int" where
  "c_read u a i = (if 0 \<le> i \<and> i < int (length a) then a ! nat i else u)"

subsection \<open>\<open>_IntArray.map_to_tuple\<close>\<close>

text \<open>
  \<open>objs\<close> is always a tuple here (both constructors store \<open>PySequence_Tuple(objs)\<close>),
  so the \<open>TypeError\<close> branch is never taken. \<open>PyTuple_GetItem\<close> returns \<open>NULL\<close>
  for a negative index as well as for one past the end.
\<close>

fun map_to_tuple :: "int list \<Rightarrow> 'a list \<Rightarrow> error + 'a list" where
  "map_to_tuple [] objs = Inr []"
| "map_to_tuple (n # ns) objs =
     (if n < 0 \<or> int (length objs) \<le> n then Inl IndexError
      else (case map_to_tuple ns objs of
              Inl e \<Rightarrow> Inl e
            | Inr t \<Rightarrow> Inr (objs ! nat n # t)))"

subsection \<open>\<open>to_intarray\<close>\<close>

text \<open>
  The loop \<open>ia.data[i] = sequence[i]\<close> converts one entry after the other to a C
  \<open>int\<close> and stops with \<open>OverflowError\<close> at the first one that does not fit.
\<close>

fun to_intarray :: "int list \<Rightarrow> error + int list" where
  "to_intarray [] = Inr []"
| "to_intarray (x # xs) =
     (if fits_c_int x then
        (case to_intarray xs of
           Inl e \<Rightarrow> Inl e
         | Inr a \<Rightarrow> Inr (x # a))
      else Inl OverflowError)"

subsection \<open>\<open>LexicographicIterator\<close>\<close>

record 'a LexicographicIterator =
  li_k :: nat
  li_generator_state :: int
  li_objs :: "'a list"
  li_T :: "int list"
  li_limits :: "int list"
  li_index_map :: "int list"
  li_increments :: "int list"

text \<open>
  The validation loop of \<open>__init__\<close> over the positions \<open>0 \<le> i < k\<close>. The Python
  indexing \<open>index_map[i]\<close> raises \<open>IndexError\<close> when the supplied sequence is too
  short; the assignment to \<open>cdef int im\<close> raises \<open>OverflowError\<close> when the entry
  does not fit; only then is the entry compared with \<open>0\<close> and with \<open>k\<close>.
\<close>

fun fill_index_map :: "nat \<Rightarrow> int list \<Rightarrow> nat list \<Rightarrow> error + int list" where
  "fill_index_map k index_map [] = Inr []"
| "fill_index_map k index_map (i # rest) =
     (if length index_map \<le> i then Inl IndexError
      else if \<not> fits_c_int (index_map ! i) then Inl OverflowError
      else (let im = index_map ! i in
        if im < 0 then
          (case fill_index_map k index_map rest of
             Inl e \<Rightarrow> Inl e | Inr a \<Rightarrow> Inr (- 1 # a))
        else if im > int k then Inl ValueError
        else
          (case fill_index_map k index_map rest of
             Inl e \<Rightarrow> Inl e | Inr a \<Rightarrow> Inr (im # a))))"

text \<open>One round of the loop of \<open>rollover_next\<close>, at position \<open>i\<close>.\<close>

definition rollover_step :: "int \<Rightarrow> int list \<Rightarrow> int list \<Rightarrow> int list \<Rightarrow> nat \<Rightarrow> int list" where
  "rollover_step u index_map increments T i =
     (let im = index_map ! i in
      if im < 0 then T[i := 0]
      else T[i := c_int (c_read u T im + c_read u increments (int i))])"

definition rollover_next :: "int \<Rightarrow> 'a LexicographicIterator \<Rightarrow> nat \<Rightarrow> 'a LexicographicIterator" where
  "rollover_next u s g =
     s\<lparr>li_T := foldl (rollover_step u (li_index_map s) (li_increments s)) (li_T s)
                  [Suc g..<li_k s]\<rparr>"

text \<open>
  \<open>__init__\<close>, in the order of the source: \<open>to_intarray(limits)\<close>, the decrement
  of the stored limits, the validation of \<open>index_map\<close>, \<open>to_intarray(increments)\<close>,
  then the first index tuple. The buffer \<open>T\<close> is allocated without being initialised;
  the write \<open>T.data[0] = 0\<close> falls outside of an empty buffer when \<open>k = 0\<close> and is
  then dropped by the list update.
\<close>

definition LexicographicIterator_init ::
    "int \<Rightarrow> 'a list \<Rightarrow> int list \<Rightarrow> int list \<Rightarrow> int list \<Rightarrow> error + 'a LexicographicIterator" where
  "LexicographicIterator_init u objs limits index_map increments =
     (case to_intarray limits of
        Inl e \<Rightarrow> Inl e
      | Inr la \<Rightarrow>
          (let k = length la;
               lim = map (\<lambda>l. c_int (l - 1)) la
           in case fill_index_map k index_map [0..<k] of
                Inl e \<Rightarrow> Inl e
              | Inr im \<Rightarrow>
                  (case to_intarray increments of
                     Inl e \<Rightarrow> Inl e
                   | Inr inc \<Rightarrow>
                       Inr ((rollover_next u
                              \<lparr>li_k = k, li_generator_state = 0, li_objs = objs,
                               li_T = (replicate k u)[0 := 0], li_limits = lim,
                               li_index_map = im, li_increments = inc\<rparr> 0)
                            \<lparr>li_generator_state := 0\<rparr>))))"

definition LexicographicIterator_current :: "'a LexicographicIterator \<Rightarrow> error + 'a list" where
  "LexicographicIterator_current s = map_to_tuple (li_T s) (li_objs s)"

text \<open>
  The downward scan of \<open>_next\<close>: \<open>find_g T limits k\<close> visits \<open>g = k - 1, \<dots>, 0\<close> and
  stops at the first position with \<open>T[g] < limits[g]\<close>; \<open>None\<close> is the \<open>else\<close> branch
  of the loop.
\<close>

fun find_g :: "int list \<Rightarrow> int list \<Rightarrow> nat \<Rightarrow> nat option" where
  "find_g T limits 0 = None"
| "find_g T limits (Suc g) =
     (if T ! g < limits ! g then Some g else find_g T limits g)"

definition LexicographicIterator_next :: "int \<Rightarrow> 'a LexicographicIterator \<Rightarrow> 'a LexicographicIterator" where
  "LexicographicIterator_next u s =
     (case find_g (li_T s) (li_limits s) (li_k s) of
        None \<Rightarrow> s\<lparr>li_generator_state := 2\<rparr>
      | Some g \<Rightarrow> rollover_next u (s\<lparr>li_T := (li_T s)[g := c_int (li_T s ! g + 1)]\<rparr>) g)"

text \<open>\<open>__next__\<close>: the result of the pull and the iterator after it.\<close>

definition LexicographicIterator_dunder_next ::
    "int \<Rightarrow> 'a LexicographicIterator \<Rightarrow> (error + 'a list) \<times> 'a LexicographicIterator" where
  "LexicographicIterator_dunder_next u s =
     (if li_generator_state s = 0 then
        (let s1 = s\<lparr>li_generator_state := 1\<rparr> in (LexicographicIterator_current s1, s1))
      else if li_generator_state s = 2 then (Inl StopIteration, s)
      else (let s1 = LexicographicIterator_next u s in
            if li_generator_state s1 = 2 then (Inl StopIteration, s1)
            else (LexicographicIterator_current s1, s1)))"

text \<open>The iterator after \<open>m\<close> pulls.\<close>

primrec LexicographicIterator_pulls ::
    "int \<Rightarrow> nat \<Rightarrow> 'a LexicographicIterator \<Rightarrow> 'a LexicographicIterator" where
  "LexicographicIterator_pulls u 0 s = s"
| "LexicographicIterator_pulls u (Suc m) s =
     snd (LexicographicIterator_dunder_next u (LexicographicIterator_pulls u m s))"

subsection \<open>\<open>PermutationIterator\<close>\<close>

record 'a PermutationIterator =
  pi_objs :: "'a list"
  pi_perm :: "int list"
  pi_generator_state :: int

definition PermutationIterator_init :: "'a list \<Rightarrow> 'a PermutationIterator" where
  "PermutationIterator_init objs =
     \<lparr>pi_objs = objs, pi_perm = map int [0..<length objs], pi_generator_state = 0\<rparr>"

definition PermutationIterator_current :: "'a PermutationIterator \<Rightarrow> error + 'a list" where
  "PermutationIterator_current s = map_to_tuple (pi_perm s) (pi_objs s)"

text \<open>
  Step 1 of \<open>_next\<close>: \<open>find_i perm (n - 1)\<close> visits \<open>i = n - 2, \<dots>, 0\<close> and stops at
  the first \<open>i\<close> with \<open>perm[i+1] \<ge> perm[i]\<close>. For \<open>n = 0\<close> the C loop starts at \<open>-2\<close>
  and does not run; the truncated \<open>0 - 1 = 0\<close> on \<open>nat\<close> gives the same empty scan.
\<close>

fun find_i :: "int list \<Rightarrow> nat \<Rightarrow> nat option" where
  "find_i perm 0 = None"
| "find_i perm (Suc i) =
     (if perm ! Suc i \<ge> perm ! i then Some i else find_i perm i)"

text \<open>Step 2: \<open>find_j perm pi n\<close> visits \<open>j = n - 1, \<dots>, 0\<close> until \<open>perm[j] \<ge> pi\<close>.\<close>

fun find_j :: "int list \<Rightarrow> int \<Rightarrow> nat \<Rightarrow> nat option" where
  "find_j perm pi 0 = None"
| "find_j perm pi (Suc j) =
     (if perm ! j \<ge> pi then Some j else find_j perm pi j)"

text \<open>Step 4: the loop that reverses \<open>perm[i+1:]\<close>, entered with \<open>k = i + 1\<close>.\<close>

function reverse_loop :: "int list \<Rightarrow> nat \<Rightarrow> nat \<Rightarrow> nat \<Rightarrow> int list" where
  "reverse_loop perm n i k =
     (if k < n then
        (let kc = n - k + i in
         if k \<ge> kc then perm
         else reverse_loop (perm[k := perm ! kc, kc := perm ! k]) n i (Suc k))
      else perm)"
  by pat_completeness auto
termination
  by (relation "measure (\<lambda>(perm, n, i, k). n - k)") auto

declare reverse_loop.simps [simp del]

text \<open>
  \<open>_next\<close>. The scan of step 2 always stops, at \<open>j = i\<close> at the latest
  (lemma \<open>find_j_exists\<close> below), so its \<open>None\<close> branch is not reached.
\<close>

definition PermutationIterator_next :: "'a PermutationIterator \<Rightarrow> 'a PermutationIterator" where
  "PermutationIterator_next s =
     (let n = length (pi_perm s); perm = pi_perm s in
      case find_i perm (n - 1) of
        None \<Rightarrow> s\<lparr>pi_generator_state := 2\<rparr>
      | Some i \<Rightarrow>
          (let pi = perm ! i in
           case find_j perm pi n of
             None \<Rightarrow> s
           | Some j \<Rightarrow>
               (let perm1 = perm[i := perm ! j];
                    perm2 = perm1[j := pi]
                in s\<lparr>pi_perm := reverse_loop perm2 n i (Suc i)\<rparr>)))"

definition PermutationIterator_dunder_next ::
    "'a PermutationIterator \<Rightarrow> (error + 'a list) \<times> 'a PermutationIterator" where
  "PermutationIterator_dunder_next s =
     (if pi_generator_state s = 0 then
        (let s1 = (if length (pi_perm s) = 1 then s\<lparr>pi_generator_state := 2\<rparr>
                   else s\<lparr>pi_generator_state := 1\<rparr>)
         in (PermutationIterator_current s1, s1))
      else if pi_generator_state s = 2 then (Inl StopIteration, s)
      else (let s1 = PermutationIterator_next s in
            if pi_generator_state s1 = 2 then (Inl StopIteration, s1)
            else (PermutationIterator_current s1, s1)))"

primrec PermutationIterator_pulls :: "nat \<Rightarrow> 'a PermutationIterator \<Rightarrow> 'a PermutationIterator" where
  "PermutationIterator_pulls 0 s = s"
| "PermutationIterator_pulls (Suc m) s =
     snd (PermutationIterator_dunder_next (PermutationIterator_pulls m s))"

subsection \<open>Counting permutations of labels\<close>

definition count_permutations2 :: "'a \<Rightarrow> 'a \<Rightarrow> nat" where
  "count_permutations2 l0 l1 = (if l0 = l1 then 1 else 2)"

definition count_permutations3 :: "'a \<Rightarrow> 'a \<Rightarrow> 'a \<Rightarrow> nat" where
  "count_permutations3 l0 l1 l2 =
     (if l0 = l1 then
        (if l1 = l2 then 1 else 3)
      else
        (if l1 = l2 then 3
         else if l0 = l2 then 1
         else 6))"

subsection \<open>Sorting two, three and four integers\<close>

definition sort2_int :: "int \<Rightarrow> int \<Rightarrow> int \<times> int" where
  "sort2_int a b = (if a > b then (b, a) else (a, b))"

definition sort3_int :: "int \<Rightarrow> int \<Rightarrow> int \<Rightarrow> int \<times> int \<times> int" where
  "sort3_int s0 s1 s2 =
     (if s0 > s2 then
        (let (s0, s2) = (s2, s0) in
         if s1 > s2 then (let (s1, s2) = (s2, s1) in (s0, s1, s2))
         else (s0, s1, s2))
      else if s0 > s1 then (let (s0, s1) = (s1, s0) in (s0, s1, s2))
      else (s0, s1, s2))"

definition sort4_int :: "int \<Rightarrow> int \<Rightarrow> int \<Rightarrow> int \<Rightarrow> int \<times> int \<times> int \<times> int" where
  "sort4_int i0 i1 i2 i3 =
     (let (s1, s3) = (if i1 > i3 then (i3, i1) else (i1, i3));
          (s0, s2) = (if i0 > i2 then (i2, i0) else (i0, i2));
          (s2, s3) = (if s2 > s3 then (s3, s2) else (s2, s3));
          (s0, s1) = (if s0 > s1 then (s1, s0) else (s0, s1));
          (s1, s2) = (if s1 > s2 then (s2, s1) else (s1, s2))
      in (s0, s1, s2, s3))"

subsection \<open>Notions used in the statements\<close>

text \<open>
  The strictly increasing index tuples of length \<open>k\<close> over \<open>{0, \<dots>, n-1}\<close>, and the
  permutations of \<open>{0, \<dots>, n-1}\<close>, as sets of index tuples.
\<close>

definition k_subset_tuples :: "nat \<Rightarrow> nat \<Rightarrow> int list set" where
  "k_subset_tuples n k = {t. length t = k \<and> sorted_wrt (<) t \<and> set t \<subseteq> {0..<int n}}"

definition permutation_tuples :: "nat \<Rightarrow> int list set" where
  "permutation_tuples n = {p. length p = n \<and> distinct p \<and> set p \<subseteq> {0..<int n}}"

text \<open>
  The iterator that \<open>__init__\<close> builds from \<open>limits[i] = n-k+i+1\<close>,
  \<open>index_map[i] = i-1\<close>, \<open>increments[i] = 1\<close>, in generator state \<open>gs\<close> and with
  the index tuple \<open>t\<close>.
\<close>

definition k_subset_iterator ::
    "nat \<Rightarrow> nat \<Rightarrow> 'a list \<Rightarrow> int \<Rightarrow> int list \<Rightarrow> 'a LexicographicIterator" where
  "k_subset_iterator n k objs gs t =
     \<lparr>li_k = k, li_generator_state = gs, li_objs = objs, li_T = t,
      li_limits = map (\<lambda>i. int n - int k + int i) [0..<k],
      li_index_map = map (\<lambda>i. int i - 1) [0..<k],
      li_increments = replicate k 1\<rparr>"

section \<open>The fixed-arity routines\<close>

lemma sort2_int_sorted:
  "sort2_int a b = (x, y) \<Longrightarrow> x \<le> y \<and> ((x, y) = (a, b) \<or> (x, y) = (b, a))"
  by (auto simp: sort2_int_def split: if_splits)

lemma sort2_int_idem:
  "sort2_int a b = (x, y) \<Longrightarrow> sort2_int x y = (x, y)"
  by (auto simp: sort2_int_def split: if_splits)

lemma sort4_int_sorted:
  "sort4_int a b c d = (w, x, y, z) \<Longrightarrow> w \<le> x \<and> x \<le> y \<and> y \<le> z"
  by (auto simp: sort4_int_def split: if_splits)

lemma sort4_int_idem:
  "sort4_int a b c d = (w, x, y, z) \<Longrightarrow> sort4_int w x y z = (w, x, y, z)"
  by (auto simp: sort4_int_def split: if_splits)

text \<open>
  Claim C6: the sorting functions of arity 2, 3 and 4 return the input values in
  ascending order, in particular \<open>sort3(3,1,2) = (1,2,3)\<close>. The routines of arity 2
  and 4 do (lemmas above). \<open>sort3_int\<close> does not: when \<open>s0 > s2\<close> it swaps the two
  and then compares \<open>s1\<close> with the new \<open>s2\<close> only, never with the new \<open>s0\<close>; on
  \<open>(3,1,2)\<close> it returns \<open>(2,1,3)\<close>.
\<close>

theorem sort3_int_3_1_2: "sort3_int 3 1 2 = (2, 1, 3)"
  by (simp add: sort3_int_def)

text \<open>
  Claim C7: each sorting function is idempotent. For arity 2 and 4 it is (lemmas
  above). For arity 3 the first application to \<open>(3,1,2)\<close> gives \<open>(2,1,3)\<close> and the
  second one changes it again, to \<open>(1,2,3)\<close>.
\<close>

theorem sort3_int_twice_3_1_2:
  "(case sort3_int 3 1 2 of (a, b, c) \<Rightarrow> sort3_int a b c) = (1, 2, 3) \<and>
   (case sort3_int 3 1 2 of (a, b, c) \<Rightarrow> sort3_int a b c) \<noteq> sort3_int 3 1 2"
  by (simp add: sort3_int_def)

text \<open>
  Claim C5: \<open>count_permutations3\<close> returns 1 for three equal labels, 3 when exactly two
  distinct values appear, whichever positions hold the equal pair, and 6 for three
  distinct labels. The branch for \<open>l0 = l2 \<noteq> l1\<close> returns 1 instead of 3.
\<close>

theorem count_permutations3_first_last_equal: "count_permutations3 (1::int) 2 1 = 1"
  by (simp add: count_permutations3_def)

section \<open>Construction of a \<open>LexicographicIterator\<close>\<close>

lemma to_intarray_ok: "\<forall>x\<in>set xs. fits_c_int x \<Longrightarrow> to_intarray xs = Inr xs"
  by (induction xs) auto

lemma to_intarray_Inr: "to_intarray xs = Inr a \<Longrightarrow> a = xs"
  by (induction xs arbitrary: a) (auto split: if_splits sum.splits)

lemma to_intarray_error: "to_intarray xs = Inl e \<Longrightarrow> e = OverflowError"
  by (induction xs) (auto split: if_splits sum.splits)

lemma fill_index_map_ValueError:
  assumes fits: "\<forall>x\<in>set index_map. fits_c_int x"
  shows "fill_index_map k index_map is = Inl ValueError \<longleftrightarrow>
     (\<exists>j < length is. (\<forall>l \<le> j. is ! l < length index_map) \<and> int k < index_map ! (is ! j))"
proof (induction "is")
  case Nil
  then show ?case by simp
next
  case (Cons i rest)
  show ?case
  proof (cases "length index_map \<le> i")
    case True
    then have "\<not> (\<exists>j < length (i # rest). (\<forall>l \<le> j. (i # rest) ! l < length index_map)
        \<and> int k < index_map ! ((i # rest) ! j))"
      by (metis le0 not_less nth_Cons_0)
    with True show ?thesis by simp
  next
    case False
    note inr = this
    then have fit: "fits_c_int (index_map ! i)" using fits by simp
    show ?thesis
    proof (cases "int k < index_map ! i")
      case True
      then have "\<exists>j < length (i # rest). (\<forall>l \<le> j. (i # rest) ! l < length index_map)
          \<and> int k < index_map ! ((i # rest) ! j)"
        using inr by (intro exI [of _ 0]) simp
      with True inr fit show ?thesis by (simp add: Let_def)
    next
      case False
      have "(\<exists>j < length (i # rest). (\<forall>l \<le> j. (i # rest) ! l < length index_map)
              \<and> int k < index_map ! ((i # rest) ! j))
         \<longleftrightarrow> (\<exists>j < length rest. (\<forall>l \<le> j. rest ! l < length index_map)
              \<and> int k < index_map ! (rest ! j))"
        (is "?L \<longleftrightarrow> ?R")
      proof
        assume ?L
        then obtain j where j: "j < length (i # rest)"
          "\<forall>l \<le> j. (i # rest) ! l < length index_map"
          "int k < index_map ! ((i # rest) ! j)" by blast
        with False obtain j' where j': "j = Suc j'" by (cases j) auto
        have "\<forall>l \<le> j'. rest ! l < length index_map"
        proof (intro allI impI)
          fix l assume "l \<le> j'"
          then have "Suc l \<le> j" using j' by simp
          with j(2) have "(i # rest) ! Suc l < length index_map" by blast
          then show "rest ! l < length index_map" by simp
        qed
        with j j' show ?R by auto
      next
        assume ?R
        then obtain j where j: "j < length rest" "\<forall>l \<le> j. rest ! l < length index_map"
          "int k < index_map ! (rest ! j)" by blast
        have "\<forall>l \<le> Suc j. (i # rest) ! l < length index_map"
        proof (intro allI impI)
          fix l assume "l \<le> Suc j"
          then show "(i # rest) ! l < length index_map"
            using j(2) inr by (cases l) auto
        qed
        with j show ?L by (intro exI [of _ "Suc j"]) simp
      qed
      with False inr fit Cons.IH show ?thesis
        by (auto simp: Let_def split: sum.splits)
    qed
  qed
qed

lemma fill_index_map_upt_ValueError:
  assumes fits: "\<forall>x\<in>set index_map. fits_c_int x"
  shows "fill_index_map k index_map [0..<k] = Inl ValueError \<longleftrightarrow>
     (\<exists>i. i < k \<and> i < length index_map \<and> int k < index_map ! i)"
proof -
  have "(\<exists>j < length [0..<k]. (\<forall>l \<le> j. [0..<k] ! l < length index_map)
           \<and> int k < index_map ! ([0..<k] ! j))
    \<longleftrightarrow> (\<exists>i. i < k \<and> i < length index_map \<and> int k < index_map ! i)" (is "?L \<longleftrightarrow> ?R")
  proof
    assume ?L
    then obtain j where j: "j < k" "\<forall>l \<le> j. [0..<k] ! l < length index_map"
      "int k < index_map ! ([0..<k] ! j)"
      by auto
    from j(2) j(1) have "[0..<k] ! j < length index_map" by blast
    with j show ?R by auto
  next
    assume ?R
    then obtain i where i: "i < k" "i < length index_map" "int k < index_map ! i" by blast
    have "\<forall>l \<le> i. [0..<k] ! l < length index_map" using i by auto
    with i show ?L by (intro exI [of _ i]) simp
  qed
  then show ?thesis by (simp only: fill_index_map_ValueError [OF fits])
qed

lemma fill_index_map_ok:
  "\<forall>i \<in> set is. i < length index_map \<and> fits_c_int (index_map ! i) \<and> index_map ! i \<le> int k \<Longrightarrow>
   fill_index_map k index_map is =
     Inr (map (\<lambda>i. if index_map ! i < 0 then - 1 else index_map ! i) is)"
  by (induction "is") (auto simp: Let_def)

lemma LexicographicIterator_init_ok:
  assumes "\<forall>x\<in>set limits. fits_c_int x" and "\<forall>x\<in>set index_map. fits_c_int x"
    and "\<forall>x\<in>set increments. fits_c_int x"
    and "length limits \<le> length index_map"
    and "\<forall>i<length limits. index_map ! i \<le> int (length limits)"
  shows "\<exists>s. LexicographicIterator_init u objs limits index_map increments = Inr s
           \<and> li_generator_state s = 0"
proof -
  have "\<forall>i \<in> set [0..<length limits].
          i < length index_map \<and> fits_c_int (index_map ! i)
          \<and> index_map ! i \<le> int (length limits)"
    using assms(2,4,5) by auto
  from fill_index_map_ok [OF this] show ?thesis
    by (simp add: LexicographicIterator_init_def rollover_next_def Let_def
        to_intarray_ok [OF assms(1)] to_intarray_ok [OF assms(3)])
qed

text \<open>
  Claim C8: construction raises \<open>ValueError\<close> if and only if some \<open>index_map[i]\<close>, at
  a position \<open>i < k\<close> that the supplied sequence has, is strictly greater than \<open>k\<close>, the
  length of \<open>limits\<close>; in particular an input whose entries are all at most \<open>k\<close>,
  \<open>index_map[i] = k\<close> included, is accepted without error. The entries of \<open>limits\<close>,
  \<open>index_map\<close> and \<open>increments\<close> are C \<open>int\<close> values: an entry that does not fit raises
  \<open>OverflowError\<close> instead (lemma \<open>LexicographicIterator_init_OverflowError\<close> below).
\<close>

theorem LexicographicIterator_init_ValueError_iff:
  "\<forall>x\<in>set limits. fits_c_int x \<Longrightarrow> \<forall>x\<in>set index_map. fits_c_int x \<Longrightarrow>
   (LexicographicIterator_init u objs limits index_map increments = Inl ValueError \<longleftrightarrow>
      (\<exists>i. i < length limits \<and> i < length index_map \<and> int (length limits) < index_map ! i))
   \<and> ((\<forall>x\<in>set increments. fits_c_int x) \<and> length limits \<le> length index_map
        \<and> (\<forall>i<length limits. index_map ! i \<le> int (length limits))
      \<longrightarrow> (\<exists>s. LexicographicIterator_init u objs limits index_map increments = Inr s))"
proof (intro conjI impI)
  assume lim: "\<forall>x\<in>set limits. fits_c_int x" and im: "\<forall>x\<in>set index_map. fits_c_int x"
  have "LexicographicIterator_init u objs limits index_map increments = Inl ValueError \<longleftrightarrow>
        fill_index_map (length limits) index_map [0..<length limits] = Inl ValueError"
    by (auto simp: LexicographicIterator_init_def Let_def to_intarray_ok [OF lim]
        split: sum.splits dest: to_intarray_error)
  then show "LexicographicIterator_init u objs limits index_map increments = Inl ValueError \<longleftrightarrow>
      (\<exists>i. i < length limits \<and> i < length index_map \<and> int (length limits) < index_map ! i)"
    by (simp only: fill_index_map_upt_ValueError [OF im])
next
  assume lim: "\<forall>x\<in>set limits. fits_c_int x" and im: "\<forall>x\<in>set index_map. fits_c_int x"
    and "(\<forall>x\<in>set increments. fits_c_int x) \<and> length limits \<le> length index_map
        \<and> (\<forall>i<length limits. index_map ! i \<le> int (length limits))"
  then show "\<exists>s. LexicographicIterator_init u objs limits index_map increments = Inr s"
    using LexicographicIterator_init_ok [of limits index_map increments u objs] by blast
qed

theorem LexicographicIterator_init_ValueError_iff_witness:
  "LexicographicIterator_init 0 ''abc'' [3, 3] [- 1, 2] [0, 0] \<noteq> Inl ValueError \<and>
   (\<exists>s. LexicographicIterator_init 0 ''abc'' [3, 3] [- 1, 2] [0, 0] = Inr s)"
  using LexicographicIterator_init_ValueError_iff [of "[3, 3]" "[- 1, 2]" 0 "''abc''" "[0, 0]"]
  by (auto simp: less_Suc_eq numeral_2_eq_2 fits_c_int_def)

text \<open>
  Outside of the C \<open>int\<close> range the conversion comes first: an \<open>index_map\<close> entry of
  \<open>2^31\<close> exceeds \<open>k\<close> and still raises \<open>OverflowError\<close>, as does such an entry of
  \<open>limits\<close>.
\<close>

lemma LexicographicIterator_init_OverflowError:
  "LexicographicIterator_init u objs [2] [2147483648] [0] = Inl OverflowError"
  "LexicographicIterator_init u objs [2147483648] [- 1] [0] = Inl OverflowError"
  by (simp_all add: LexicographicIterator_init_def fits_c_int_def Let_def)

text \<open>
  Claim C9, as stated: construction with a non-positive \<open>limits[i]\<close> fails with a
  construction error before any tuple is produced. It does not: with \<open>limits = (0,)\<close>
  construction succeeds and the first pull produces a tuple.
\<close>

theorem LexicographicIterator_init_zero_limit_accepted:
  "(case LexicographicIterator_init 0 ''a'' [0] [- 1] [0] of
      Inl e \<Rightarrow> False
    | Inr s \<Rightarrow> li_limits s = [- 1] \<and> fst (LexicographicIterator_dunder_next 0 s) = Inr ''a'')"
  by code_simp

text \<open>
  Claim C9, amended: constructing an iterator with some non-positive \<open>limits[j]\<close> (for
  example \<open>limits[j] = 0\<close>) does not fail at construction time. \<open>__init__\<close> has no check
  of the sign of a limit: when the entries of \<open>limits\<close>, \<open>index_map\<close> and \<open>increments\<close>
  are C \<open>int\<close> values and \<open>index_map\<close> has an entry for each of the \<open>k\<close> positions, none
  above \<open>k\<close>, construction succeeds and the iterator is ready for its first pull.
\<close>

theorem LexicographicIterator_init_limits_unchecked:
  "j < length limits \<Longrightarrow> limits ! j \<le> 0 \<Longrightarrow>
   \<forall>x\<in>set limits. fits_c_int x \<Longrightarrow> \<forall>x\<in>set index_map. fits_c_int x \<Longrightarrow>
   \<forall>x\<in>set increments. fits_c_int x \<Longrightarrow>
   length limits \<le> length index_map \<Longrightarrow>
   \<forall>i<length limits. index_map ! i \<le> int (length limits) \<Longrightarrow>
   \<exists>s. LexicographicIterator_init u objs limits index_map increments = Inr s
        \<and> li_generator_state s = 0"
  by (rule LexicographicIterator_init_ok)

theorem LexicographicIterator_init_limits_unchecked_witness:
  "\<exists>s. LexicographicIterator_init 0 ''a'' [0, - 5] [- 1, 0] [0, 0] = Inr s
        \<and> li_generator_state s = 0"
  using LexicographicIterator_init_limits_unchecked
    [of 0 "[0, - 5]" "[- 1, 0]" "[0, 0]" 0 "''a''"]
  by (simp add: fits_c_int_def less_Suc_eq numeral_2_eq_2)

section \<open>Two runs of a \<open>LexicographicIterator\<close>\<close>

text \<open>
  Claim C3: for every accepted construction input, every produced tuple satisfies
  \<open>0 \<le> T[i] \<le> limits[i]\<close> for the stored maxima. \<open>rollover_next\<close> writes
  \<open>T[im] + increments[i]\<close> without comparing it with \<open>limits[i]\<close>: over four items,
  with \<open>limits = (3,3)\<close>, \<open>index_map = (-1,0)\<close>, \<open>increments = (0,1)\<close>, the fourth
  pull produces the tuple of \<open>T = (2,3)\<close>, whose second entry exceeds the stored
  maximum 2.
\<close>

theorem LexicographicIterator_rollover_exceeds_limit:
  "(case LexicographicIterator_init u ''abcd'' [3, 3] [- 1, 0] [0, 1] of
      Inl e \<Rightarrow> False
    | Inr s \<Rightarrow>
        map (\<lambda>m. fst (LexicographicIterator_dunder_next u (LexicographicIterator_pulls u m s)))
            [0..<4]
          = [Inr ''ab'', Inr ''ac'', Inr ''bc'', Inr ''cd''] \<and>
        li_T (LexicographicIterator_pulls u 4 s) = [2, 3] \<and>
        li_limits (LexicographicIterator_pulls u 4 s) = [2, 2])"
  by code_simp

text \<open>
  Claim C4: with \<open>items = ('a','b','c')\<close>, \<open>limits = (3,3)\<close>, \<open>index_map = (-1,0)\<close>,
  \<open>increments = (0,1)\<close> the iterator produces \<open>('a','b')\<close>, \<open>('a','c')\<close>, \<open>('b','c')\<close>
  and the pull after the third one signals the end of the sequence. The three tuples
  come out; the fourth pull steps to \<open>T = (2,3)\<close> and raises \<open>IndexError\<close> in
  \<open>map_to_tuple\<close>; only the fifth pull raises \<open>StopIteration\<close>.
\<close>

theorem LexicographicIterator_abc_fourth_pull:
  "(case LexicographicIterator_init u ''abc'' [3, 3] [- 1, 0] [0, 1] of
      Inl e \<Rightarrow> False
    | Inr s \<Rightarrow>
        map (\<lambda>m. fst (LexicographicIterator_dunder_next u (LexicographicIterator_pulls u m s)))
            [0..<5]
          = [Inr ''ab'', Inr ''ac'', Inr ''bc'', Inl IndexError, Inl StopIteration])"
  by code_simp

section \<open>\<open>PermutationIterator\<close> over the empty sequence\<close>

lemma PermutationIterator_empty_inv:
  "pi_perm s = [] \<and> (pi_generator_state s = 1 \<or> pi_generator_state s = 2) \<Longrightarrow>
   pi_perm (snd (PermutationIterator_dunder_next s)) = [] \<and>
   (pi_generator_state (snd (PermutationIterator_dunder_next s)) = 1 \<or>
    pi_generator_state (snd (PermutationIterator_dunder_next s)) = 2)"
  by (auto simp: PermutationIterator_dunder_next_def PermutationIterator_next_def Let_def)

lemma PermutationIterator_empty_stop:
  "pi_perm s = [] \<and> (pi_generator_state s = 1 \<or> pi_generator_state s = 2) \<Longrightarrow>
   fst (PermutationIterator_dunder_next s) = Inl StopIteration"
  by (auto simp: PermutationIterator_dunder_next_def PermutationIterator_next_def Let_def)

lemma PermutationIterator_empty_pulls:
  "pi_perm (PermutationIterator_pulls (Suc m) (PermutationIterator_init ([]::'a list))) = [] \<and>
   (pi_generator_state
      (PermutationIterator_pulls (Suc m) (PermutationIterator_init ([]::'a list))) = 1 \<or>
    pi_generator_state
      (PermutationIterator_pulls (Suc m) (PermutationIterator_init ([]::'a list))) = 2)"
proof (induction m)
  case 0
  show ?case
    by (simp add: PermutationIterator_dunder_next_def PermutationIterator_init_def Let_def)
next
  case (Suc m)
  from PermutationIterator_empty_inv [OF Suc.IH] show ?case
    by (simp only: PermutationIterator_pulls.simps)
qed

text \<open>
  Claim C10: over the empty item sequence the iterator does not fail. The first pull
  produces the empty tuple, and every later pull signals the end of the sequence.
\<close>

theorem PermutationIterator_empty:
  "fst (PermutationIterator_dunder_next (PermutationIterator_init ([]::'a list))) = Inr [] \<and>
   (\<forall>m. fst (PermutationIterator_dunder_next
             (PermutationIterator_pulls (Suc m) (PermutationIterator_init ([]::'a list))))
          = Inl StopIteration)"
proof -
  have "fst (PermutationIterator_dunder_next (PermutationIterator_init ([]::'a list))) = Inr []"
    by (simp add: PermutationIterator_dunder_next_def PermutationIterator_init_def
        PermutationIterator_current_def)
  moreover have "fst (PermutationIterator_dunder_next
             (PermutationIterator_pulls (Suc m) (PermutationIterator_init ([]::'a list))))
          = Inl StopIteration" for m
    by (rule PermutationIterator_empty_stop [OF PermutationIterator_empty_pulls])
  ultimately show ?thesis by blast
qed

section \<open>Index tuples in lexicographic order\<close>

text \<open>
  Index tuples are compared by the lexicographic order on lists. The lemmas of this
  section do not depend on the iterators.
\<close>

lemma lex_less_nth:
  fixes xs ys :: "'a::linorder list"
  assumes "length xs = length ys"
  shows "xs < ys \<longleftrightarrow> (\<exists>i<length xs. (\<forall>j<i. xs ! j = ys ! j) \<and> xs ! i < ys ! i)"
  using assms
proof (induction xs ys rule: list_induct2)
  case Nil
  then show ?case by simp
next
  case (Cons x xs y ys)
  show ?case
  proof
    assume "x # xs < y # ys"
    then consider "x < y" | "x = y" "xs < ys" by auto
    then show "\<exists>i<length (x # xs). (\<forall>j<i. (x # xs) ! j = (y # ys) ! j) \<and> (x # xs) ! i < (y # ys) ! i"
    proof cases
      case 1
      then show ?thesis by (intro exI [of _ 0]) simp
    next
      case 2
      with Cons.IH obtain i where i: "i < length xs" "\<forall>j<i. xs ! j = ys ! j" "xs ! i < ys ! i"
        by blast
      have "\<forall>j<Suc i. (x # xs) ! j = (y # ys) ! j"
        using i(2) 2(1) by (auto simp: nth_Cons split: nat.splits)
      with i show ?thesis by (intro exI [of _ "Suc i"]) simp
    qed
  next
    assume "\<exists>i<length (x # xs). (\<forall>j<i. (x # xs) ! j = (y # ys) ! j) \<and> (x # xs) ! i < (y # ys) ! i"
    then obtain i where i: "i < length (x # xs)" "\<forall>j<i. (x # xs) ! j = (y # ys) ! j"
      "(x # xs) ! i < (y # ys) ! i" by blast
    show "x # xs < y # ys"
    proof (cases i)
      case 0
      with i show ?thesis by simp
    next
      case (Suc i')
      with i(2) have "x = y" by (auto dest: spec [of _ 0])
      moreover have "\<forall>j<i'. xs ! j = ys ! j"
        using i(2) Suc by (auto dest: spec [of _ "Suc j" for j])
      ultimately show ?thesis using i Suc Cons.IH by auto
    qed
  qed
qed

lemma lex_le_pointwise:
  fixes xs ys :: "'a::linorder list"
  assumes "length xs = length ys" "\<forall>i<length xs. xs ! i \<le> ys ! i"
  shows "xs \<le> ys"
  using assms
proof (induction xs ys rule: list_induct2)
  case Nil
  then show ?case by simp
next
  case (Cons x xs y ys)
  from Cons.prems have "x \<le> y" by (auto dest: spec [of _ 0])
  moreover from Cons.prems have "\<forall>i<length xs. xs ! i \<le> ys ! i"
    by (auto dest: spec [of _ "Suc i" for i])
  ultimately show ?case using Cons.IH by auto
qed

lemma strict_sorted_next:
  fixes L :: "'a::linorder list"
  assumes "sorted_wrt (<) L" "Suc m < length L" "r \<in> set L" "L ! m < r"
  shows "L ! Suc m \<le> r"
proof -
  from assms(3) obtain j where j: "j < length L" "r = L ! j" by (auto simp: in_set_conv_nth)
  have "m < j"
  proof (rule ccontr)
    assume "\<not> m < j"
    then have "j \<le> m" by simp
    then have "L ! j \<le> L ! m"
      using sorted_wrt_nth_less [OF assms(1), of j m] assms(2)
      by (cases "j = m") auto
    with assms(4) j show False by simp
  qed
  then have "Suc m \<le> j" by simp
  then show ?thesis using sorted_wrt_nth_less [OF assms(1), of "Suc m" j] j
    by (cases "Suc m = j") auto
qed

lemma strict_sorted_nth_mono:
  fixes t :: "int list"
  assumes "sorted_wrt (<) t" "j < length t"
  shows "i \<le> j \<Longrightarrow> t ! i + int (j - i) \<le> t ! j"
  using assms(2)
proof (induction j)
  case 0
  then show ?case by simp
next
  case (Suc j)
  show ?case
  proof (cases "i = Suc j")
    case True
    then show ?thesis by simp
  next
    case False
    with Suc.prems have ij: "i \<le> j" by simp
    have "t ! j < t ! Suc j" using assms(1) Suc.prems
      by (simp add: sorted_wrt_iff_nth_less)
    moreover have "t ! i + int (j - i) \<le> t ! j" using Suc ij by simp
    ultimately show ?thesis using ij by (simp add: Suc_diff_le)
  qed
qed

lemma card_strict_sorted_lists:
  "card {t :: int list. length t = k \<and> sorted_wrt (<) t \<and> set t \<subseteq> {0..<int n}} = n choose k"
proof -
  let ?A = "{0..<int n}"
  let ?S = "{t :: int list. length t = k \<and> sorted_wrt (<) t \<and> set t \<subseteq> ?A}"
  let ?B = "{B. B \<subseteq> ?A \<and> card B = k}"
  have eq: "?S = sorted_list_of_set ` ?B"
  proof (intro set_eqI iffI)
    fix t assume "t \<in> ?S"
    then have t: "length t = k" "sorted_wrt (<) t" "set t \<subseteq> ?A" by blast+
    then have sd: "sorted t" "distinct t" by (simp_all add: strict_sorted_iff)
    then have "sorted_list_of_set (set t) = t"
      by (rule sorted_list_of_set.idem_if_sorted_distinct)
    moreover have "card (set t) = k" using sd(2) t(1) by (simp add: distinct_card)
    then have "set t \<in> ?B" using t(3) by blast
    ultimately show "t \<in> sorted_list_of_set ` ?B" by (metis image_eqI)
  next
    fix t assume "t \<in> sorted_list_of_set ` ?B"
    then obtain B where B: "B \<subseteq> ?A" "card B = k" "t = sorted_list_of_set B" by blast
    then have fin: "finite B" using finite_subset [of B ?A] by simp
    have "length t = k" using B(2,3) by simp
    moreover have "sorted_wrt (<) t" unfolding B(3) by (rule strict_sorted_list_of_set)
    moreover have "set t = B" unfolding B(3) using fin by (rule set_sorted_list_of_set)
    ultimately show "t \<in> ?S" using B(1) by blast
  qed
  have inj: "inj_on sorted_list_of_set ?B"
  proof (rule inj_onI)
    fix X Y :: "int set" assume a: "X \<in> ?B" "Y \<in> ?B" "sorted_list_of_set X = sorted_list_of_set Y"
    from a(1,2) have fin: "finite X" "finite Y" using finite_subset [of _ ?A] by auto
    have "X = set (sorted_list_of_set X)" by (rule set_sorted_list_of_set [OF fin(1), symmetric])
    also have "\<dots> = set (sorted_list_of_set Y)" by (simp only: a(3))
    also have "\<dots> = Y" by (rule set_sorted_list_of_set [OF fin(2)])
    finally show "X = Y" .
  qed
  have "card (sorted_list_of_set ` ?B) = card ?B" using inj by (rule card_image)
  then have "card ?S = card ?B" by (simp only: eq)
  also have "\<dots> = card ?A choose k" by (rule n_subsets) (rule finite_atLeastLessThan_int)
  also have "card ?A = n" by simp
  finally show ?thesis .
qed

lemma strict_sorted_first:
  fixes L :: "'a::linorder list"
  assumes "sorted_wrt (<) L" "x \<in> set L" "\<forall>r\<in>set L. x \<le> r"
  shows "L ! 0 = x"
proof -
  from assms(2) obtain j where j: "j < length L" "x = L ! j" by (auto simp: in_set_conv_nth)
  have "j = 0"
  proof (rule ccontr)
    assume "j \<noteq> 0"
    then have "0 < j" by simp
    from sorted_wrt_nth_less [OF assms(1) this j(1)] have "L ! 0 < x" using j(2) by simp
    moreover have "L ! 0 \<in> set L" using j(1) by (auto intro!: nth_mem)
    ultimately show False using assms(3) by (auto simp: not_le [symmetric])
  qed
  with j show ?thesis by simp
qed

lemma strict_sorted_succ_unique:
  fixes L :: "'a::linorder list"
  assumes "sorted_wrt (<) L" "Suc m < length L" "x \<in> set L" "L ! m < x"
    and "\<forall>r\<in>set L. L ! m < r \<longrightarrow> x \<le> r"
  shows "L ! Suc m = x"
proof -
  have "L ! Suc m \<le> x" using assms(1-4) by (rule strict_sorted_next)
  moreover have "L ! Suc m \<in> set L" using assms(2) by (simp add: nth_mem)
  moreover have "L ! m < L ! Suc m" using sorted_wrt_nth_less [OF assms(1), of m "Suc m"] assms(2) by simp
  ultimately show ?thesis using assms(5) by (auto simp: antisym)
qed

lemma strict_sorted_not_last:
  fixes L :: "'a::linorder list"
  assumes "sorted_wrt (<) L" "Suc m < length L"
  shows "\<not> (\<forall>r\<in>set L. r \<le> L ! m)"
proof
  assume a: "\<forall>r\<in>set L. r \<le> L ! m"
  have "L ! Suc m \<in> set L" using assms(2) by (simp add: nth_mem)
  with a have "L ! Suc m \<le> L ! m" by blast
  moreover have "L ! m < L ! Suc m" using sorted_wrt_nth_less [OF assms(1), of m "Suc m"] assms(2) by simp
  ultimately show False by simp
qed

lemma strict_sorted_last:
  fixes L :: "'a::linorder list"
  assumes "sorted_wrt (<) L" "Suc m = length L" "x \<in> set L"
  shows "x \<le> L ! m"
proof -
  from assms(3) obtain j where j: "j < length L" "x = L ! j" by (auto simp: in_set_conv_nth)
  show ?thesis
  proof (cases "j = m")
    case True with j show ?thesis by simp
  next
    case False
    with j assms(2) have "j < m" by simp
    from sorted_wrt_nth_less [OF assms(1) this] assms(2) j show ?thesis by simp
  qed
qed


section \<open>\<open>LexicographicIterator\<close> configured for k-subsets\<close>

lemma c_int_id: "- 2147483648 \<le> x \<Longrightarrow> x < 2147483648 \<Longrightarrow> c_int x = x"
  by (simp add: c_int_def)

lemma find_g_Some:
  "find_g T lim m = Some g \<Longrightarrow>
     g < m \<and> T ! g < lim ! g \<and> (\<forall>i. g < i \<and> i < m \<longrightarrow> \<not> T ! i < lim ! i)"
proof (induction m)
  case 0
  then show ?case by simp
next
  case (Suc m)
  show ?case
  proof (cases "T ! m < lim ! m")
    case True
    with Suc.prems show ?thesis by auto
  next
    case False
    with Suc.prems have "find_g T lim m = Some g" by simp
    from Suc.IH [OF this] False show ?thesis by (auto simp: less_Suc_eq)
  qed
qed

lemma find_g_None:
  "find_g T lim m = None \<Longrightarrow> \<forall>i<m. \<not> T ! i < lim ! i"
  by (induction m) (auto simp: less_Suc_eq split: if_splits)

lemma map_to_tuple_ok:
  "\<forall>x\<in>set t. 0 \<le> x \<and> x < int (length objs) \<Longrightarrow>
   map_to_tuple t objs = Inr (map (\<lambda>i. objs ! nat i) t)"
  by (induction t) auto

lemma rollover_ksub:
  fixes T :: "int list"
  assumes len: "length T = k" and g: "g < k"
    and lo: "- 2147483648 \<le> T ! g" and hi: "T ! g + int (k - g) \<le> 2147483648"
  shows "Suc g + d \<le> k \<Longrightarrow>
    length (foldl (rollover_step u (map (\<lambda>i. int i - 1) [0..<k]) (replicate k 1)) T
              [Suc g..<Suc g + d]) = k \<and>
    (\<forall>i<k. foldl (rollover_step u (map (\<lambda>i. int i - 1) [0..<k]) (replicate k 1)) T
              [Suc g..<Suc g + d] ! i =
           (if g < i \<and> i < Suc g + d then T ! g + int (i - g) else T ! i))"
proof (induction d)
  case 0
  show ?case using len by simp
next
  case (Suc d)
  let ?im = "map (\<lambda>i. int i - 1) [0..<k]"
  let ?R = "foldl (rollover_step u ?im (replicate k 1)) T [Suc g..<Suc g + d]"
  let ?m = "Suc g + d"
  from Suc.prems have m: "?m < k" by simp
  from Suc have IH: "length ?R = k"
    "\<forall>i<k. ?R ! i = (if g < i \<and> i < ?m then T ! g + int (i - g) else T ! i)" by simp_all
  have upt: "[Suc g..<Suc g + Suc d] = [Suc g..<?m] @ [?m]" by simp
  have prev: "?R ! (?m - 1) = T ! g + int (?m - 1 - g)"
    using IH(2) m by (cases d) simp_all
  have idx: "?im ! ?m = int (?m - 1)" using m by simp
  have "c_read u ?R (int (?m - 1)) = ?R ! (?m - 1)"
    using m IH(1) unfolding c_read_def nat_int by simp
  then have rd: "c_read u ?R (?im ! ?m) = T ! g + int (?m - 1 - g)"
    using prev by (simp only: idx)
  have inc: "c_read u (replicate k 1) (int ?m) = 1" using m by (simp add: c_read_def)
  have val: "c_int (T ! g + int (?m - 1 - g) + 1) = T ! g + int (?m - g)"
    using lo hi m by (subst c_int_id) auto
  have step: "rollover_step u ?im (replicate k 1) ?R ?m = ?R[?m := T ! g + int (?m - g)]"
    unfolding rollover_step_def Let_def rd inc val using m by simp
  have R': "foldl (rollover_step u ?im (replicate k 1)) T [Suc g..<Suc g + Suc d]
      = ?R[?m := T ! g + int (?m - g)]"
    unfolding upt foldl_append using step by simp
  show ?case unfolding R' using IH m by (auto simp: nth_list_update)
qed

lemma k_subset_bounds:
  assumes "t \<in> k_subset_tuples n k" "i < k"
  shows "int i \<le> t ! i" and "t ! i \<le> int n - int k + int i"
proof -
  from assms(1) have t: "length t = k" "sorted_wrt (<) t" "set t \<subseteq> {0..<int n}"
    by (simp_all add: k_subset_tuples_def)
  have k0: "0 < k" using assms(2) by simp
  have "t ! 0 \<in> set t" "t ! (k - 1) \<in> set t" using t(1) k0 by (auto intro!: nth_mem)
  with t(3) have b: "0 \<le> t ! 0" "t ! (k - 1) < int n" by auto
  from strict_sorted_nth_mono [OF t(2), of i 0] assms(2) t(1) have "t ! 0 + int i \<le> t ! i" by simp
  with b(1) show "int i \<le> t ! i" by simp
  from strict_sorted_nth_mono [OF t(2), of "k - 1" i] assms(2) t(1) k0
  have "t ! i + int (k - 1 - i) \<le> t ! (k - 1)" by simp
  with b(2) assms(2) show "t ! i \<le> int n - int k + int i" by (simp add: of_nat_diff)
qed

lemma k_subset_init:
  assumes "1 \<le> k" "k \<le> n" "int n < 2147483648"
  shows "LexicographicIterator_init u objs (map (\<lambda>i. int n - int k + int i + 1) [0..<k])
            (map (\<lambda>i. int i - 1) [0..<k]) (replicate k 1)
         = Inr (k_subset_iterator n k objs 0 (map int [0..<k]))"
proof -
  let ?im = "map (\<lambda>i. int i - 1) [0..<k]"
  have tl: "to_intarray (map (\<lambda>i. int n - int k + int i + 1) [0..<k])
      = Inr (map (\<lambda>i. int n - int k + int i + 1) [0..<k])"
    using assms by (intro to_intarray_ok) (auto simp: fits_c_int_def)
  have ti: "to_intarray (replicate k 1) = Inr (replicate k 1)"
    by (intro to_intarray_ok) (auto simp: fits_c_int_def)
  have "\<forall>i\<in>set [0..<k]. i < length ?im \<and> fits_c_int (?im ! i) \<and> ?im ! i \<le> int k"
    using assms by (auto simp: fits_c_int_def)
  from fill_index_map_ok [OF this]
  have "fill_index_map k ?im [0..<k] = Inr (map (\<lambda>i. if ?im ! i < 0 then - 1 else ?im ! i) [0..<k])" .
  also have "map (\<lambda>i. if ?im ! i < 0 then - 1 else ?im ! i) [0..<k] = ?im"
    by (rule map_cong) auto
  finally have fim: "fill_index_map k ?im [0..<k] = Inr ?im" .
  have lim: "map (\<lambda>l. c_int (l - 1)) (map (\<lambda>i. int n - int k + int i + 1) [0..<k])
      = map (\<lambda>i. int n - int k + int i) [0..<k]"
    using assms by (auto simp: c_int_id)
  let ?T = "(replicate k u)[0 := 0]"
  have T0: "?T ! 0 = 0" "length ?T = k" using assms(1) by simp_all
  have "Suc 0 + (k - 1) \<le> k" using assms(1) by simp
  from rollover_ksub [of ?T k 0 "k - 1" u, OF T0(2) _ _ _ this] assms T0(1)
  have R: "length (foldl (rollover_step u ?im (replicate k 1)) ?T [Suc 0..<k]) = k"
    "\<forall>i<k. foldl (rollover_step u ?im (replicate k 1)) ?T [Suc 0..<k] ! i = int i"
    by (auto simp: T0(1))
  have T: "foldl (rollover_step u ?im (replicate k 1)) ?T [Suc 0..<k] = map int [0..<k]"
    using R by (intro nth_equalityI) simp_all
  show ?thesis
    unfolding LexicographicIterator_init_def tl sum.case Let_def length_map length_upt lim
    by (simp add: fim ti rollover_next_def T k_subset_iterator_def)
qed

lemma k_subset_first:
  assumes "k \<le> n"
  shows "map int [0..<k] \<in> k_subset_tuples n k"
    and "\<forall>r\<in>k_subset_tuples n k. map int [0..<k] \<le> r"
proof -
  show "map int [0..<k] \<in> k_subset_tuples n k"
    using assms by (auto simp: k_subset_tuples_def sorted_wrt_iff_nth_less)
  show "\<forall>r\<in>k_subset_tuples n k. map int [0..<k] \<le> r"
  proof
    fix r assume r: "r \<in> k_subset_tuples n k"
    then have "length r = k" by (simp add: k_subset_tuples_def)
    then show "map int [0..<k] \<le> r"
      using k_subset_bounds(1) [OF r] by (intro lex_le_pointwise) simp_all
  qed
qed

lemma k_subset_next_None:
  assumes t: "t \<in> k_subset_tuples n k"
    and none: "find_g t (map (\<lambda>i. int n - int k + int i) [0..<k]) k = None"
  shows "LexicographicIterator_next u (k_subset_iterator n k objs 1 t)
           = k_subset_iterator n k objs 2 t"
    and "\<forall>r\<in>k_subset_tuples n k. r \<le> t"
proof -
  show "LexicographicIterator_next u (k_subset_iterator n k objs 1 t)
           = k_subset_iterator n k objs 2 t"
    using none by (simp add: LexicographicIterator_next_def k_subset_iterator_def)
  have top: "\<forall>i<k. int n - int k + int i \<le> t ! i"
    using find_g_None [OF none] by (auto simp: not_less)
  show "\<forall>r\<in>k_subset_tuples n k. r \<le> t"
  proof
    fix r assume r: "r \<in> k_subset_tuples n k"
    have "length r = length t" using r t by (simp add: k_subset_tuples_def)
    moreover have "\<forall>i<length r. r ! i \<le> t ! i"
    proof (intro allI impI)
      fix i assume "i < length r"
      then have i: "i < k" using r by (simp add: k_subset_tuples_def)
      from k_subset_bounds(2) [OF r i] top i show "r ! i \<le> t ! i" by fastforce
    qed
    ultimately show "r \<le> t" by (rule lex_le_pointwise)
  qed
qed

lemma k_subset_next_Some:
  assumes t: "t \<in> k_subset_tuples n k"
    and some: "find_g t (map (\<lambda>i. int n - int k + int i) [0..<k]) k = Some g"
    and n: "int n < 2147483648"
  shows "\<exists>t'. LexicographicIterator_next u (k_subset_iterator n k objs 1 t)
                 = k_subset_iterator n k objs 1 t'
           \<and> t' \<in> k_subset_tuples n k \<and> t < t'
           \<and> (\<forall>r\<in>k_subset_tuples n k. t < r \<longrightarrow> t' \<le> r)"
proof -
  let ?im = "map (\<lambda>i. int i - 1) [0..<k]"
  from t have tl: "length t = k" and ts: "sorted_wrt (<) t"
    by (simp_all add: k_subset_tuples_def)
  from find_g_Some [OF some] have g: "g < k" and tg: "t ! g < int n - int k + int g"
    and above: "\<forall>i. g < i \<and> i < k \<longrightarrow> int n - int k + int i \<le> t ! i"
    by (auto simp: not_less)
  from k_subset_bounds [OF t g] have tg0: "int g \<le> t ! g" by simp
  have ci: "c_int (t ! g + 1) = t ! g + 1"
    using tg tg0 n g by (intro c_int_id) auto
  let ?T1 = "t[g := t ! g + 1]"
  let ?t' = "foldl (rollover_step u ?im (replicate k 1)) ?T1 [Suc g..<k]"
  have T1: "length ?T1 = k" "?T1 ! g = t ! g + 1" using tl g by simp_all
  have "Suc g + (k - Suc g) \<le> k" using g by simp
  moreover have "- 2147483648 \<le> ?T1 ! g" using tg0 T1(2) by simp
  moreover have "?T1 ! g + int (k - g) \<le> 2147483648" using tg n g T1(2) by (simp add: of_nat_diff)
  ultimately have R0: "length ?t' = k \<and>
      (\<forall>i<k. ?t' ! i = (if g < i \<and> i < Suc g + (k - Suc g) then ?T1 ! g + int (i - g) else ?T1 ! i))"
    using rollover_ksub [of ?T1 k g "k - Suc g" u, OF T1(1) g] g by simp
  then have len: "length ?t' = k" by simp
  have nth: "?t' ! i = (if i < g then t ! i else t ! g + 1 + int (i - g))" if "i < k" for i
    using R0 that g tl by (auto simp: nth_list_update)
  have nxt: "LexicographicIterator_next u (k_subset_iterator n k objs 1 t)
                 = k_subset_iterator n k objs 1 ?t'"
    using some by (simp add: LexicographicIterator_next_def k_subset_iterator_def
        rollover_next_def ci)
  have mem: "?t' \<in> k_subset_tuples n k"
  proof -
    have "sorted_wrt (<) ?t'"
      unfolding sorted_wrt_iff_nth_less
    proof (intro allI impI)
      fix i j assume ij: "i < j" "j < length ?t'"
      then have jk: "j < k" "i < k" using len by simp_all
      show "?t' ! i < ?t' ! j"
      proof (cases "j < g")
        case True
        then show ?thesis using nth jk ij sorted_wrt_nth_less [OF ts, of i j] tl by simp
      next
        case False
        note jg = this
        show ?thesis
        proof (cases "i < g")
          case True
          from sorted_wrt_nth_less [OF ts, of i g] True g tl have "t ! i < t ! g" by simp
          then show ?thesis using nth jk True jg by simp
        next
          case False
          then show ?thesis using nth jk jg ij by simp
        qed
      qed
    qed
    moreover have "set ?t' \<subseteq> {0..<int n}"
    proof
      fix x assume "x \<in> set ?t'"
      then obtain i where i: "i < k" "x = ?t' ! i" using len by (auto simp: in_set_conv_nth)
      show "x \<in> {0..<int n}"
      proof (cases "i < g")
        case True
        then have "x = t ! i" using nth i by simp
        moreover have "t ! i \<in> set t" using i tl by (simp add: nth_mem)
        ultimately show ?thesis using t by (auto simp: k_subset_tuples_def)
      next
        case False
        then have "x = t ! g + 1 + int (i - g)" using nth i by simp
        then show ?thesis using tg tg0 i False by (auto simp: of_nat_diff)
      qed
    qed
    ultimately show ?thesis using len by (simp add: k_subset_tuples_def)
  qed
  have less: "t < ?t'"
  proof -
    have "\<exists>i<length t. (\<forall>j<i. t ! j = ?t' ! j) \<and> t ! i < ?t' ! i"
      using g tl nth by (intro exI [of _ g]) simp
    then show ?thesis using lex_less_nth [of t ?t'] tl len by simp
  qed
  have least: "\<forall>r\<in>k_subset_tuples n k. t < r \<longrightarrow> ?t' \<le> r"
  proof (intro ballI impI)
    fix r assume r: "r \<in> k_subset_tuples n k" and tr: "t < r"
    from r have rl: "length r = k" and rs: "sorted_wrt (<) r"
      by (simp_all add: k_subset_tuples_def)
    from tr lex_less_nth [of t r] tl rl
    obtain i where i: "i < k" "\<forall>j<i. t ! j = r ! j" "t ! i < r ! i" by auto
    have ig: "i \<le> g"
    proof (rule ccontr)
      assume "\<not> i \<le> g"
      then have "int n - int k + int i \<le> t ! i" using above i(1) by simp
      with k_subset_bounds(2) [OF r i(1)] i(3) show False by simp
    qed
    show "?t' \<le> r"
    proof (cases "i < g")
      case True
      have "\<exists>i<length ?t'. (\<forall>j<i. ?t' ! j = r ! j) \<and> ?t' ! i < r ! i"
        using True i g nth len by (intro exI [of _ i]) simp
      then have "?t' < r" using lex_less_nth [of ?t' r] len rl by simp
      then show ?thesis by simp
    next
      case False
      with ig have eq: "i = g" by simp
      have "\<forall>m<length ?t'. ?t' ! m \<le> r ! m"
      proof (intro allI impI)
        fix m assume "m < length ?t'"
        then have m: "m < k" using len by simp
        show "?t' ! m \<le> r ! m"
        proof (cases "m < g")
          case True
          then show ?thesis using nth m i(2) eq by simp
        next
          case False
          then have gm: "g \<le> m" by simp
          from strict_sorted_nth_mono [OF rs, of m g] m rl gm
          have "r ! g + int (m - g) \<le> r ! m" by simp
          then show ?thesis using nth m False i(3) eq by simp
        qed
      qed
      then show ?thesis using len rl by (intro lex_le_pointwise) simp_all
    qed
  qed
  from nxt mem less least show ?thesis by blast
qed

lemma finite_k_subset_tuples: "finite (k_subset_tuples n k)"
proof -
  have "k_subset_tuples n k \<subseteq> {xs. set xs \<subseteq> {0..<int n} \<and> length xs = k}"
    by (auto simp: k_subset_tuples_def)
  moreover have "finite {xs. set xs \<subseteq> {0..<int n} \<and> length xs = k}"
    by (rule finite_lists_length_eq) simp
  ultimately show ?thesis by (rule finite_subset)
qed

lemma k_subset_list:
  "set (sorted_list_of_set (k_subset_tuples n k)) = k_subset_tuples n k"
  "sorted_wrt (<) (sorted_list_of_set (k_subset_tuples n k))"
  "length (sorted_list_of_set (k_subset_tuples n k)) = n choose k"
proof -
  show "set (sorted_list_of_set (k_subset_tuples n k)) = k_subset_tuples n k"
    using finite_k_subset_tuples by (rule set_sorted_list_of_set)
  show "sorted_wrt (<) (sorted_list_of_set (k_subset_tuples n k))"
    by (rule strict_sorted_list_of_set)
  have "length (sorted_list_of_set (k_subset_tuples n k)) = card (k_subset_tuples n k)"
    by (rule length_sorted_list_of_set)
  also have "\<dots> = n choose k"
    unfolding k_subset_tuples_def by (rule card_strict_sorted_lists)
  finally show "length (sorted_list_of_set (k_subset_tuples n k)) = n choose k" .
qed

lemma k_subset_gather:
  assumes "t \<in> k_subset_tuples n k" "length objs = n"
  shows "map_to_tuple t objs = Inr (map (\<lambda>i. objs ! nat i) t)"
  using assms by (intro map_to_tuple_ok) (auto simp: k_subset_tuples_def)

lemma k_subset_pull_first:
  assumes "t \<in> k_subset_tuples n k" "length objs = n"
  shows "LexicographicIterator_dunder_next u (k_subset_iterator n k objs 0 t)
     = (Inr (map (\<lambda>i. objs ! nat i) t), k_subset_iterator n k objs 1 t)"
  using k_subset_gather [OF assms]
  by (simp add: LexicographicIterator_dunder_next_def LexicographicIterator_current_def
      k_subset_iterator_def Let_def)

lemma k_subset_pull_mid:
  assumes m: "Suc m < n choose k" and objs: "length objs = n" and n: "int n < 2147483648"
  shows "LexicographicIterator_dunder_next u
           (k_subset_iterator n k objs 1 (sorted_list_of_set (k_subset_tuples n k) ! m))
     = (Inr (map (\<lambda>i. objs ! nat i) (sorted_list_of_set (k_subset_tuples n k) ! Suc m)),
        k_subset_iterator n k objs 1 (sorted_list_of_set (k_subset_tuples n k) ! Suc m))"
proof -
  let ?L = "sorted_list_of_set (k_subset_tuples n k)"
  note L = k_subset_list [of n k]
  have tm: "?L ! m \<in> k_subset_tuples n k" using m L(1,3) nth_mem [of m ?L] by simp
  have notlast: "\<not> (\<forall>r\<in>set ?L. r \<le> ?L ! m)"
    using L(2) m L(3) by (intro strict_sorted_not_last) simp_all
  have "find_g (?L ! m) (map (\<lambda>i. int n - int k + int i) [0..<k]) k \<noteq> None"
    using k_subset_next_None(2) [OF tm] notlast L(1) by auto
  then obtain g where g: "find_g (?L ! m) (map (\<lambda>i. int n - int k + int i) [0..<k]) k = Some g"
    by auto
  from k_subset_next_Some [OF tm g n, of u objs]
  obtain t' where t': "LexicographicIterator_next u (k_subset_iterator n k objs 1 (?L ! m))
                 = k_subset_iterator n k objs 1 t'"
    "t' \<in> k_subset_tuples n k" "?L ! m < t'"
    "\<forall>r\<in>k_subset_tuples n k. ?L ! m < r \<longrightarrow> t' \<le> r" by blast
  have "?L ! Suc m = t'"
    using L(2) _ _ t'(3)
  proof (rule strict_sorted_succ_unique)
    show "Suc m < length ?L" using m L(3) by simp
    show "t' \<in> set ?L" using t'(2) L(1) by simp
    show "\<forall>r\<in>set ?L. ?L ! m < r \<longrightarrow> t' \<le> r" using t'(4) L(1) by simp
  qed
  then have nx: "LexicographicIterator_next u (k_subset_iterator n k objs 1 (?L ! m))
                 = k_subset_iterator n k objs 1 (?L ! Suc m)"
    and mem: "?L ! Suc m \<in> k_subset_tuples n k" using t'(1,2) by simp_all
  show ?thesis
    using k_subset_gather [OF mem objs]
    by (simp add: LexicographicIterator_dunder_next_def [of u "k_subset_iterator n k objs 1 (?L ! m)"]
        nx Let_def)
      (simp add: k_subset_iterator_def LexicographicIterator_current_def)
qed

lemma k_subset_pull_last:
  assumes m: "Suc m = n choose k" and n: "int n < 2147483648"
  shows "LexicographicIterator_dunder_next u
           (k_subset_iterator n k objs 1 (sorted_list_of_set (k_subset_tuples n k) ! m))
     = (Inl StopIteration,
        k_subset_iterator n k objs 2 (sorted_list_of_set (k_subset_tuples n k) ! m))"
proof -
  let ?L = "sorted_list_of_set (k_subset_tuples n k)"
  note L = k_subset_list [of n k]
  have tm: "?L ! m \<in> k_subset_tuples n k" using m L(1,3) nth_mem [of m ?L] by simp
  have "find_g (?L ! m) (map (\<lambda>i. int n - int k + int i) [0..<k]) k = None"
  proof (rule ccontr)
    assume "find_g (?L ! m) (map (\<lambda>i. int n - int k + int i) [0..<k]) k \<noteq> None"
    then obtain g where g: "find_g (?L ! m) (map (\<lambda>i. int n - int k + int i) [0..<k]) k = Some g"
      by auto
    from k_subset_next_Some [OF tm g n, of u objs]
    obtain t' where t': "t' \<in> k_subset_tuples n k" "?L ! m < t'" by blast
    have "t' \<le> ?L ! m"
      using L(2) _ _
    proof (rule strict_sorted_last)
      show "Suc m = length ?L" using m L(3) by simp
      show "t' \<in> set ?L" using t'(1) L(1) by simp
    qed
    with t'(2) show False by simp
  qed
  from k_subset_next_None(1) [OF tm this, of u objs] show ?thesis
    by (simp add: LexicographicIterator_dunder_next_def [of u "k_subset_iterator n k objs 1 (?L ! m)"] Let_def)
      (simp add: k_subset_iterator_def)
qed

lemma k_subset_pull_done:
  "LexicographicIterator_dunder_next u (k_subset_iterator n k objs 2 t)
     = (Inl StopIteration, k_subset_iterator n k objs 2 t)"
  by (simp add: LexicographicIterator_dunder_next_def k_subset_iterator_def)

lemma li_T_k_subset_iterator [simp]: "li_T (k_subset_iterator n k objs gs t) = t"
  by (simp add: k_subset_iterator_def)

lemma k_subset_run:
  assumes kn: "k \<le> n" and objs: "length objs = n" and n: "int n < 2147483648"
  shows "m < n choose k \<Longrightarrow>
    LexicographicIterator_pulls u (Suc m) (k_subset_iterator n k objs 0 (map int [0..<k]))
      = k_subset_iterator n k objs 1 (sorted_list_of_set (k_subset_tuples n k) ! m)"
proof (induction m)
  case 0
  let ?L = "sorted_list_of_set (k_subset_tuples n k)"
  note L = k_subset_list [of n k]
  note first = k_subset_first [OF kn]
  have "?L ! 0 = map int [0..<k]"
    using L(2) first L(1) by (intro strict_sorted_first) simp_all
  then show ?case
    using k_subset_pull_first [OF first(1) objs, of u] by simp
next
  case (Suc m)
  then have "LexicographicIterator_pulls u (Suc m) (k_subset_iterator n k objs 0 (map int [0..<k]))
      = k_subset_iterator n k objs 1 (sorted_list_of_set (k_subset_tuples n k) ! m)" by simp
  then show ?case
    using k_subset_pull_mid [OF Suc.prems objs n, of u]
    by (simp only: LexicographicIterator_pulls.simps snd_conv)
qed

lemma k_subset_run_done:
  assumes kn: "k \<le> n" and objs: "length objs = n" and n: "int n < 2147483648"
  shows "LexicographicIterator_pulls u (Suc ((n choose k) + d))
           (k_subset_iterator n k objs 0 (map int [0..<k]))
      = k_subset_iterator n k objs 2 (sorted_list_of_set (k_subset_tuples n k) ! ((n choose k) - 1))"
proof (induction d)
  case 0
  have pos: "0 < n choose k" using kn by (simp add: zero_less_binomial)
  then obtain N' where N': "n choose k = Suc N'" by (cases "n choose k") auto
  then have "N' < n choose k" by simp
  from k_subset_run [OF kn objs n this, of u]
  have "LexicographicIterator_pulls u (n choose k) (k_subset_iterator n k objs 0 (map int [0..<k]))
      = k_subset_iterator n k objs 1 (sorted_list_of_set (k_subset_tuples n k) ! N')"
    unfolding N' .
  moreover have "LexicographicIterator_pulls u (Suc ((n choose k) + 0))
           (k_subset_iterator n k objs 0 (map int [0..<k]))
     = snd (LexicographicIterator_dunder_next u (LexicographicIterator_pulls u (n choose k)
           (k_subset_iterator n k objs 0 (map int [0..<k]))))" by simp
  moreover have "(n choose k) - 1 = N'" using N' by simp
  ultimately show ?case
    using k_subset_pull_last [OF N' [symmetric] n, of u objs] by simp
next
  case (Suc d)
  have "LexicographicIterator_pulls u (Suc ((n choose k) + Suc d))
           (k_subset_iterator n k objs 0 (map int [0..<k]))
     = snd (LexicographicIterator_dunder_next u (LexicographicIterator_pulls u (Suc ((n choose k) + d))
           (k_subset_iterator n k objs 0 (map int [0..<k]))))" by simp
  then show ?case unfolding Suc.IH k_subset_pull_done by simp
qed

text \<open>
  Claim C2: for \<open>n \<ge> k \<ge> 1\<close>, an iterator constructed over \<open>n\<close> items with
  \<open>limits[i] = n-k+i+1\<close>, \<open>index_map[i] = i-1\<close>, \<open>increments[i] = 1\<close> produces
  exactly the \<open>C(n,k)\<close> strictly increasing index tuples over \<open>{0, \<dots>, n-1}\<close>, each
  once, in lexicographic order. Construction succeeds; the index tuples behind the
  first \<open>C(n,k)\<close> pulls are strictly increasing in the lexicographic order and form
  the set of all strictly increasing \<open>k\<close>-tuples; each of these pulls returns the items
  at its index tuple; every later pull signals the end of the sequence. The number of
  items is assumed to fit a C \<open>int\<close>.
\<close>

theorem LexicographicIterator_k_subsets:
  assumes "1 \<le> k" and "k \<le> n" and "length objs = n" and "int n < 2147483648"
  shows "\<exists>s. LexicographicIterator_init u objs (map (\<lambda>i. int n - int k + int i + 1) [0..<k])
                (map (\<lambda>i. int i - 1) [0..<k]) (replicate k 1) = Inr s
    \<and> set (map (\<lambda>m. li_T (LexicographicIterator_pulls u (Suc m) s)) [0..<n choose k])
         = k_subset_tuples n k
    \<and> sorted_wrt (<) (map (\<lambda>m. li_T (LexicographicIterator_pulls u (Suc m) s)) [0..<n choose k])
    \<and> (\<forall>m < n choose k.
          fst (LexicographicIterator_dunder_next u (LexicographicIterator_pulls u m s))
            = Inr (map (\<lambda>i. objs ! nat i) (li_T (LexicographicIterator_pulls u (Suc m) s))))
    \<and> (\<forall>m \<ge> n choose k.
          fst (LexicographicIterator_dunder_next u (LexicographicIterator_pulls u m s))
            = Inl StopIteration)"
proof -
  let ?s = "k_subset_iterator n k objs 0 (map int [0..<k])"
  let ?L = "sorted_list_of_set (k_subset_tuples n k)"
  let ?N = "n choose k"
  note L = k_subset_list [of n k]
  note run = k_subset_run [OF assms(2,3,4), of _ u]
  note after = k_subset_run_done [OF assms(2,3,4), of u]
  have pos: "0 < ?N" using assms(2) by (simp add: zero_less_binomial)
  have Ts: "map (\<lambda>m. li_T (LexicographicIterator_pulls u (Suc m) ?s)) [0..<?N] = ?L"
    using L(3) run by (intro nth_equalityI) simp_all
  have res: "fst (LexicographicIterator_dunder_next u (LexicographicIterator_pulls u m ?s))
            = Inr (map (\<lambda>i. objs ! nat i) (li_T (LexicographicIterator_pulls u (Suc m) ?s)))"
    if m: "m < ?N" for m
  proof (cases m)
    case 0
    show ?thesis unfolding 0
      using k_subset_pull_first [OF k_subset_first(1) [OF assms(2)] assms(3), of u] by simp
  next
    case (Suc m')
    have "LexicographicIterator_pulls u (Suc m') ?s = k_subset_iterator n k objs 1 (?L ! m')"
      using run [of m'] m Suc by simp
    then show ?thesis unfolding Suc
      using k_subset_pull_mid [OF _ assms(3,4), of m' k u] m Suc by simp
  qed
  have stop: "fst (LexicographicIterator_dunder_next u (LexicographicIterator_pulls u m ?s))
            = Inl StopIteration" if m: "?N \<le> m" for m
  proof (cases "m = ?N")
    case True
    from pos obtain N' where N': "?N = Suc N'" by (cases "?N") auto
    then have "N' < ?N" by simp
    from run [OF this]
    have "LexicographicIterator_pulls u m ?s = k_subset_iterator n k objs 1 (?L ! N')"
      unfolding True N' .
    then show ?thesis
      using k_subset_pull_last [OF N' [symmetric] assms(4), of u objs] by simp
  next
    case False
    with m have "Suc ?N \<le> m" by simp
    then obtain d0 where "m = Suc ?N + d0" using le_Suc_ex by blast
    then obtain d where d: "m = Suc (?N + d)" by simp
    show ?thesis unfolding d after k_subset_pull_done by simp
  qed
  show ?thesis
  proof (intro exI conjI)
    show "LexicographicIterator_init u objs (map (\<lambda>i. int n - int k + int i + 1) [0..<k])
                (map (\<lambda>i. int i - 1) [0..<k]) (replicate k 1) = Inr ?s"
      using assms by (intro k_subset_init) simp_all
    show "set (map (\<lambda>m. li_T (LexicographicIterator_pulls u (Suc m) ?s)) [0..<?N])
         = k_subset_tuples n k" unfolding Ts by (rule L(1))
    show "sorted_wrt (<) (map (\<lambda>m. li_T (LexicographicIterator_pulls u (Suc m) ?s)) [0..<?N])"
      unfolding Ts by (rule L(2))
    show "\<forall>m < ?N.
          fst (LexicographicIterator_dunder_next u (LexicographicIterator_pulls u m ?s))
            = Inr (map (\<lambda>i. objs ! nat i) (li_T (LexicographicIterator_pulls u (Suc m) ?s)))"
      by (intro allI impI) (rule res)
    show "\<forall>m \<ge> ?N.
          fst (LexicographicIterator_dunder_next u (LexicographicIterator_pulls u m ?s))
            = Inl StopIteration" by (intro allI impI) (rule stop)
  qed
qed

theorem LexicographicIterator_k_subsets_witness:
  "\<exists>s. LexicographicIterator_init 0 ''abc'' [2, 3] [- 1, 0] [1, 1] = Inr s
    \<and> fst (LexicographicIterator_dunder_next 0 (LexicographicIterator_pulls 0 2 s))
         = Inr (map (\<lambda>i. ''abc'' ! nat i) (li_T (LexicographicIterator_pulls 0 3 s)))
    \<and> fst (LexicographicIterator_dunder_next 0 (LexicographicIterator_pulls 0 3 s))
         = Inl StopIteration"
proof -
  have c: "(3::nat) choose 2 = 3" by (simp add: choose_two)
  have l: "map (\<lambda>i. int 3 - int 2 + int i + 1) [0..<2] = [2, 3]"
    "map (\<lambda>i. int i - 1) [0..<2] = [- 1, 0]" "replicate 2 (1::int) = [1, 1]"
    by (simp_all add: upt_rec numeral_2_eq_2)
  have h: "(1::nat) \<le> 2" "(2::nat) \<le> 3" "length ''abc'' = 3" "int 3 < 2147483648"
    by simp_all
  from LexicographicIterator_k_subsets [OF h, of 0, unfolded l c]
  obtain s where s: "LexicographicIterator_init 0 ''abc'' [2, 3] [- 1, 0] [1, 1] = Inr s"
    "\<forall>m < 3. fst (LexicographicIterator_dunder_next 0 (LexicographicIterator_pulls 0 m s))
            = Inr (map (\<lambda>i. ''abc'' ! nat i) (li_T (LexicographicIterator_pulls 0 (Suc m) s)))"
    "\<forall>m \<ge> 3. fst (LexicographicIterator_dunder_next 0 (LexicographicIterator_pulls 0 m s))
            = Inl StopIteration"
    by (elim exE conjE) (rule that, assumption+)
  have "Suc 2 = 3" by simp
  with s(2) [rule_format, of 2]
  have "fst (LexicographicIterator_dunder_next 0 (LexicographicIterator_pulls 0 2 s))
         = Inr (map (\<lambda>i. ''abc'' ! nat i) (li_T (LexicographicIterator_pulls 0 3 s)))"
    by (simp del: LexicographicIterator_pulls.simps)
  moreover from s(3) have "fst (LexicographicIterator_dunder_next 0 (LexicographicIterator_pulls 0 3 s))
         = Inl StopIteration" by blast
  ultimately show ?thesis using s(1) by blast
qed

section \<open>\<open>PermutationIterator\<close> over one or more items\<close>

text \<open>Rearrangements of a list without repetitions, in the lexicographic order.\<close>

lemma lex_append_same_less:
  fixes a :: "'a::linorder list"
  shows "a @ u < a @ v \<longleftrightarrow> u < v"
  by (induction a) simp_all

lemma lex_append_same_le:
  fixes a :: "'a::linorder list"
  shows "a @ u \<le> a @ v \<longleftrightarrow> u \<le> v"
  by (induction a) simp_all

lemma descending_greatest:
  fixes d :: "'a::linorder list"
  shows "sorted_wrt (>) d \<Longrightarrow> distinct r \<Longrightarrow> set r = set d \<Longrightarrow> length r = length d \<Longrightarrow> r \<le> d"
proof (induction d arbitrary: r)
  case Nil
  then show ?case by simp
next
  case (Cons x d)
  from Cons.prems(4) obtain y r' where r: "r = y # r'" by (cases r) auto
  from Cons.prems(1) have xd: "\<forall>e\<in>set d. e < x" and sd: "sorted_wrt (>) d" by auto
  then have xnd: "x \<notin> set d" by auto
  show ?case
  proof (cases "y = x")
    case True
    have "y \<notin> set r'" using Cons.prems(2) r by simp
    with Cons.prems(3) r True xnd have "set r' = set d" by auto
    moreover have "distinct r'" "length r' = length d" using Cons.prems(2,4) r by simp_all
    ultimately have "r' \<le> d" using Cons.IH [OF sd] by blast
    with True r show ?thesis by simp
  next
    case False
    have "y \<in> set (x # d)" using Cons.prems(3) r by auto
    with False have "y \<in> set d" by simp
    with xd have "y < x" by blast
    with r show ?thesis by simp
  qed
qed

lemma ascending_least:
  fixes a :: "'a::linorder list"
  shows "sorted_wrt (<) a \<Longrightarrow> distinct r \<Longrightarrow> set r = set a \<Longrightarrow> length r = length a \<Longrightarrow> a \<le> r"
proof (induction a arbitrary: r)
  case Nil
  then show ?case by simp
next
  case (Cons x a)
  from Cons.prems(4) obtain y r' where r: "r = y # r'" by (cases r) auto
  from Cons.prems(1) have xa: "\<forall>e\<in>set a. x < e" and sa: "sorted_wrt (<) a" by auto
  then have xna: "x \<notin> set a" by auto
  show ?case
  proof (cases "y = x")
    case True
    have "y \<notin> set r'" using Cons.prems(2) r by simp
    with Cons.prems(3) r True xna have "set r' = set a" by auto
    moreover have "distinct r'" "length r' = length a" using Cons.prems(2,4) r by simp_all
    ultimately have "a \<le> r'" using Cons.IH [OF sa] by blast
    with True r show ?thesis by simp
  next
    case False
    have "y \<in> set (x # a)" using Cons.prems(3) r by auto
    with False have "y \<in> set a" by simp
    with xa have "x < y" by blast
    with r show ?thesis by simp
  qed
qed

lemma next_permutation_least:
  fixes a :: "'a::linorder list"
  assumes d: "sorted_wrt (>) d" and y: "y \<in> set d" "x < y" "\<forall>e\<in>set d. x < e \<longrightarrow> y \<le> e"
    and s: "sorted_wrt (<) s" "set s = insert x (set d - {y})" "length s = length d"
  shows "distinct (a @ x # d) \<Longrightarrow> distinct r \<Longrightarrow> set r = set (a @ x # d) \<Longrightarrow>
         length r = length (a @ x # d) \<Longrightarrow> a @ x # d < r \<Longrightarrow> a @ y # s \<le> r"
proof (induction a arbitrary: r)
  case Nil
  from Nil.prems(4) obtain c r' where r: "r = c # r'" by (cases r) auto
  from Nil.prems(1) have xnd: "x \<notin> set d" by simp
  have cnr: "c \<notin> set r'" and dr: "distinct r'" using Nil.prems(2) r by simp_all
  have lr: "length r' = length d" using Nil.prems(4) r by simp
  from Nil.prems(5) r consider "x < c" | "x = c" "d < r'" by auto
  then show ?case
  proof cases
    case 1
    have "c \<in> set (x # d)" using Nil.prems(3) r by auto
    with 1 have cd: "c \<in> set d" by auto
    with y(3) 1 have "y \<le> c" by blast
    show ?thesis
    proof (cases "y = c")
      case True
      have "set r' = set r - {c}" using r cnr by auto
      also have "\<dots> = insert x (set d) - {y}" using Nil.prems(3) True by simp
      also have "\<dots> = insert x (set d - {y})" using y(2) by auto
      finally have "set r' = set s" using s(2) by simp
      then have "s \<le> r'" using ascending_least [OF s(1) dr] lr s(3) by simp
      with True r show ?thesis by simp
    next
      case False
      with \<open>y \<le> c\<close> have "y < c" by simp
      with r show ?thesis by simp
    qed
  next
    case 2
    have "set r' = set d" using Nil.prems(3) r 2(1) cnr xnd by auto
    then have "r' \<le> d" using descending_greatest [OF d dr] lr by simp
    with 2(2) show ?thesis by simp
  qed
next
  case (Cons h a)
  from Cons.prems(4) obtain c r' where r: "r = c # r'" by (cases r) auto
  from Cons.prems(5) r consider "h < c" | "h = c" "a @ x # d < r'" by auto
  then show ?case
  proof cases
    case 1
    with r show ?thesis by simp
  next
    case 2
    have hn: "h \<notin> set (a @ x # d)" and da: "distinct (a @ x # d)" using Cons.prems(1) by simp_all
    have cn: "c \<notin> set r'" and dr: "distinct r'" using Cons.prems(2) r by simp_all
    have "set r' = set (a @ x # d)" using Cons.prems(3) r 2(1) hn cn by auto
    moreover have "length r' = length (a @ x # d)" using Cons.prems(4) r by simp
    ultimately have "a @ y # s \<le> r'" using Cons.IH [OF da dr] 2(2) by blast
    with 2(1) r show ?thesis by simp
  qed
qed

text \<open>The three loops of \<open>_next\<close>.\<close>

lemma find_i_Some:
  "find_i p m = Some i \<Longrightarrow>
     i < m \<and> p ! i \<le> p ! Suc i \<and> (\<forall>l. i < l \<and> l < m \<longrightarrow> p ! Suc l < p ! l)"
proof (induction m)
  case 0
  then show ?case by simp
next
  case (Suc m)
  show ?case
  proof (cases "p ! m \<le> p ! Suc m")
    case True
    with Suc.prems show ?thesis by auto
  next
    case False
    with Suc.prems have "find_i p m = Some i" by simp
    from Suc.IH [OF this] False show ?thesis by (auto simp: less_Suc_eq)
  qed
qed

lemma find_i_None:
  "find_i p m = None \<Longrightarrow> \<forall>l<m. p ! Suc l < p ! l"
  by (induction m) (auto simp: less_Suc_eq split: if_splits)

lemma find_j_Some:
  "find_j p v m = Some j \<Longrightarrow> j < m \<and> v \<le> p ! j \<and> (\<forall>l. j < l \<and> l < m \<longrightarrow> p ! l < v)"
proof (induction m)
  case 0
  then show ?case by simp
next
  case (Suc m)
  show ?case
  proof (cases "v \<le> p ! m")
    case True
    with Suc.prems show ?thesis by auto
  next
    case False
    with Suc.prems have "find_j p v m = Some j" by simp
    from Suc.IH [OF this] False show ?thesis by (auto simp: less_Suc_eq)
  qed
qed

lemma find_j_exists:
  "i < m \<Longrightarrow> v \<le> p ! i \<Longrightarrow> \<exists>j. find_j p v m = Some j \<and> i \<le> j"
proof (induction m)
  case 0
  then show ?case by simp
next
  case (Suc m)
  show ?case
  proof (cases "v \<le> p ! m")
    case True
    with Suc.prems show ?thesis by auto
  next
    case False
    with Suc.prems have "i < m" by (cases "i = m") auto
    from Suc.IH [OF this Suc.prems(2)] False show ?thesis by simp
  qed
qed

lemma reverse_loop_nth:
  "length p = n \<Longrightarrow> i < k \<Longrightarrow> k \<le> n \<Longrightarrow>
   length (reverse_loop p n i k) = n \<and>
   (\<forall>m<n. reverse_loop p n i k ! m =
            (if k \<le> m \<and> m \<le> n - k + i then p ! (n + i - m) else p ! m))"
proof (induction p n i k rule: reverse_loop.induct)
  case (1 perm n i k)
  show ?case
  proof (cases "k < n")
    case False
    with "1.prems" have "k = n" by simp
    then show ?thesis using "1.prems" by (simp add: reverse_loop.simps [of perm n i n])
  next
    case True
    note kn = this
    define kc where "kc = n - k + i"
    have sum: "k + kc = n + i" using kn by (simp add: kc_def)
    show ?thesis
    proof (cases "kc \<le> k")
      case True
      have "reverse_loop perm n i k = perm"
        using kn True by (simp add: reverse_loop.simps [of perm n i k] kc_def)
      moreover have "\<forall>m<n. (if k \<le> m \<and> m \<le> kc then perm ! (n + i - m) else perm ! m) = perm ! m"
      proof (intro allI impI)
        fix m assume "m < n"
        show "(if k \<le> m \<and> m \<le> kc then perm ! (n + i - m) else perm ! m) = perm ! m"
        proof (cases "k \<le> m \<and> m \<le> kc")
          case True
          with \<open>kc \<le> k\<close> have "m = k" "kc = k" by simp_all
          then have "n + i - m = m" using sum by arith
          then show ?thesis by simp
        next
          case False
          then show ?thesis by auto
        qed
      qed
      ultimately show ?thesis using "1.prems" by (simp add: kc_def)
    next
      case False
      then have kkc: "k < kc" by simp
      define p' where "p' = perm[k := perm ! kc, kc := perm ! k]"
      have rl: "reverse_loop perm n i k = reverse_loop p' n i (Suc k)"
        using kn False by (simp add: reverse_loop.simps [of perm n i k] Let_def kc_def p'_def)
      have kcn: "kc < n" using sum "1.prems" by arith
      have lp': "length p' = n" using "1.prems" by (simp add: p'_def)
      have p'k: "p' ! k = perm ! kc" using kkc kcn "1.prems" by (simp add: p'_def)
      have p'kc: "p' ! kc = perm ! k" using kkc kcn "1.prems" by (simp add: p'_def)
      have p'o: "p' ! m = perm ! m" if "m \<noteq> k" "m \<noteq> kc" for m
        using that by (simp add: p'_def)
      have bnd: "n - Suc k + i = kc - 1" using kn by (simp add: kc_def)
      have "i < Suc k" "Suc k \<le> n" using "1.prems" kn by simp_all
      with lp' have "length (reverse_loop p' n i (Suc k)) = n \<and>
        (\<forall>m<n. reverse_loop p' n i (Suc k) ! m =
            (if Suc k \<le> m \<and> m \<le> n - Suc k + i then p' ! (n + i - m) else p' ! m))"
        using "1.IH" [OF kn refl, folded kc_def, OF _ _ _ ] False
        unfolding p'_def kc_def by simp
      then have IH: "length (reverse_loop p' n i (Suc k)) = n"
        "\<forall>m<n. reverse_loop p' n i (Suc k) ! m =
            (if Suc k \<le> m \<and> m \<le> kc - 1 then p' ! (n + i - m) else p' ! m)"
        unfolding bnd by simp_all
      have "reverse_loop p' n i (Suc k) ! m =
            (if k \<le> m \<and> m \<le> kc then perm ! (n + i - m) else perm ! m)" if m: "m < n" for m
      proof -
        from IH(2) m have E: "reverse_loop p' n i (Suc k) ! m =
            (if Suc k \<le> m \<and> m \<le> kc - 1 then p' ! (n + i - m) else p' ! m)" by blast
        consider "m < k" | "m = k" | "k < m" "m < kc" | "m = kc" | "kc < m" by linarith
        then show ?thesis
        proof cases
          case 1
          then have "p' ! m = perm ! m" using kkc by (intro p'o) simp_all
          with 1 E show ?thesis by simp
        next
          case 2
          have "n + i - k = kc" using sum by arith
          with 2 E p'k kkc show ?thesis by simp
        next
          case 3
          then have c: "Suc k \<le> m" "m \<le> kc - 1" by arith+
          have "n + i - m \<noteq> k" "n + i - m \<noteq> kc" using 3 sum by arith+
          then have "p' ! (n + i - m) = perm ! (n + i - m)" by (rule p'o)
          with E c 3 show ?thesis by simp
        next
          case 4
          have "n + i - kc = k" using sum by arith
          moreover have "\<not> m \<le> kc - 1" using 4 kkc by arith
          ultimately show ?thesis using 4 E p'kc kkc by simp
        next
          case 5
          then have "p' ! m = perm ! m" using kkc by (intro p'o) simp_all
          moreover have "\<not> m \<le> kc - 1" "\<not> m \<le> kc" using 5 by arith+
          ultimately show ?thesis using 5 E by simp
        qed
      qed
      with IH(1) rl show ?thesis by (simp add: kc_def)
    qed
  qed
qed

lemma reverse_loop_rev:
  assumes "length p = n" "i < n"
  shows "reverse_loop p n i (Suc i) = take (Suc i) p @ rev (drop (Suc i) p)"
proof (rule nth_equalityI)
  from reverse_loop_nth [of p n i "Suc i"] assms
  have R: "length (reverse_loop p n i (Suc i)) = n"
    "\<forall>m<n. reverse_loop p n i (Suc i) ! m = (if Suc i \<le> m then p ! (n + i - m) else p ! m)"
    by auto
  show "length (reverse_loop p n i (Suc i)) = length (take (Suc i) p @ rev (drop (Suc i) p))"
    using R(1) assms by simp
  fix m assume "m < length (reverse_loop p n i (Suc i))"
  then have m: "m < n" using R(1) by simp
  show "reverse_loop p n i (Suc i) ! m = (take (Suc i) p @ rev (drop (Suc i) p)) ! m"
  proof (cases "Suc i \<le> m")
    case False
    then show ?thesis using R(2) m assms by (simp add: nth_append)
  next
    case True
    have "(take (Suc i) p @ rev (drop (Suc i) p)) ! m = rev (drop (Suc i) p) ! (m - Suc i)"
      using True assms m by (simp add: nth_append min_def)
    also have "\<dots> = drop (Suc i) p ! (length (drop (Suc i) p) - Suc (m - Suc i))"
      using True m assms by (intro rev_nth) simp
    also have "\<dots> = p ! (Suc i + (length (drop (Suc i) p) - Suc (m - Suc i)))"
      using assms by (intro nth_drop) simp
    also have "Suc i + (length (drop (Suc i) p) - Suc (m - Suc i)) = n + i - m"
      using True m assms by simp
    finally show ?thesis using R(2) m True by simp
  qed
qed

text \<open>One step of \<open>_next\<close> on a permutation of \<open>{0, \<dots>, n-1}\<close>.\<close>

lemma permutation_tuples_set:
  assumes "p \<in> permutation_tuples n"
  shows "set p = {0..<int n}"
proof (rule card_subset_eq)
  from assms have p: "length p = n" "distinct p" "set p \<subseteq> {0..<int n}"
    by (simp_all add: permutation_tuples_def)
  show "finite {0..<int n}" by simp
  show "set p \<subseteq> {0..<int n}" by (rule p(3))
  show "card (set p) = card {0..<int n}" using p(1,2) by (simp add: distinct_card)
qed

lemma permutation_tuples_intro:
  assumes "length p = n" "set p = {0..<int n}"
  shows "p \<in> permutation_tuples n"
proof -
  have "card (set p) = length p" using assms by simp
  then have "distinct p" by (rule card_distinct)
  with assms show ?thesis by (simp add: permutation_tuples_def)
qed

lemma transp_greater: "transp ((>) :: int \<Rightarrow> int \<Rightarrow> bool)"
  by (rule transpI) simp

lemma permutation_next_None:
  assumes p: "p \<in> permutation_tuples n" and none: "find_i p (n - 1) = None"
  shows "PermutationIterator_next \<lparr>pi_objs = objs, pi_perm = p, pi_generator_state = 1\<rparr>
           = \<lparr>pi_objs = objs, pi_perm = p, pi_generator_state = 2\<rparr>"
    and "\<forall>r\<in>permutation_tuples n. r \<le> p"
proof -
  from p have pl: "length p = n" by (simp add: permutation_tuples_def)
  show "PermutationIterator_next \<lparr>pi_objs = objs, pi_perm = p, pi_generator_state = 1\<rparr>
           = \<lparr>pi_objs = objs, pi_perm = p, pi_generator_state = 2\<rparr>"
    using none pl by (simp add: PermutationIterator_next_def Let_def)
  have "\<forall>l. Suc l < length p \<longrightarrow> p ! l > p ! Suc l"
    using find_i_None [OF none] pl by auto
  then have desc: "sorted_wrt (>) p"
    by (simp only: sorted_wrt_iff_nth_Suc_transp [OF transp_greater])
  show "\<forall>r\<in>permutation_tuples n. r \<le> p"
  proof
    fix r assume r: "r \<in> permutation_tuples n"
    then have "distinct r" "length r = length p" using pl by (simp_all add: permutation_tuples_def)
    moreover have "set r = set p"
      using permutation_tuples_set [OF r] permutation_tuples_set [OF p] by simp
    ultimately show "r \<le> p" using descending_greatest [OF desc] by blast
  qed
qed

lemma permutation_next_Some:
  assumes p: "p \<in> permutation_tuples n" and fi: "find_i p (n - 1) = Some i"
  shows "\<exists>p'. PermutationIterator_next \<lparr>pi_objs = objs, pi_perm = p, pi_generator_state = 1\<rparr>
                 = \<lparr>pi_objs = objs, pi_perm = p', pi_generator_state = 1\<rparr>
           \<and> p' \<in> permutation_tuples n \<and> p < p'
           \<and> (\<forall>r\<in>permutation_tuples n. p < r \<longrightarrow> p' \<le> r)"
proof -
  from p have pl: "length p = n" and pd: "distinct p" by (simp_all add: permutation_tuples_def)
  note ps = permutation_tuples_set [OF p]
  from find_i_Some [OF fi] have i: "i < n - 1" and up: "p ! i \<le> p ! Suc i"
    and desc: "\<forall>l. i < l \<and> l < n - 1 \<longrightarrow> p ! Suc l < p ! l" by auto
  from i have si: "Suc i < n" by simp
  from find_j_exists [of "Suc i" n "p ! i" p] si up
  obtain j where fj: "find_j p (p ! i) n = Some j" and ij: "Suc i \<le> j" by auto
  from find_j_Some [OF fj] have jn: "j < n" and xj: "p ! i \<le> p ! j"
    and after: "\<forall>l. j < l \<and> l < n \<longrightarrow> p ! l < p ! i" by auto
  define x where "x = p ! i"
  define y where "y = p ! j"
  define d where "d = drop (Suc i) p"
  define a where "a = take i p"
  define j' where "j' = j - Suc i"
  have pdec: "p = a @ x # d"
    unfolding a_def x_def d_def using si pl by (intro id_take_nth_drop) simp
  have ld: "length d = n - Suc i" using pl by (simp add: d_def)
  have j'l: "j' < length d" using ld jn ij by (simp add: j'_def)
  have dn: "d ! l = p ! (Suc i + l)" if "l < length d" for l
    unfolding d_def using si pl by (intro nth_drop) simp
  have dj': "d ! j' = y" using dn [OF j'l] ij by (simp add: j'_def y_def)
  have dd: "distinct d" using pd by (simp add: d_def)
  have "\<forall>l. Suc l < length d \<longrightarrow> d ! l > d ! Suc l"
  proof (intro allI impI)
    fix l assume l: "Suc l < length d"
    then have "i < Suc i + l \<and> Suc i + l < n - 1" using ld by simp
    with desc have "p ! Suc (Suc i + l) < p ! (Suc i + l)" by blast
    then show "d ! l > d ! Suc l" using dn [of l] dn [of "Suc l"] l by simp
  qed
  then have dsorted: "sorted_wrt (>) d"
    by (simp only: sorted_wrt_iff_nth_Suc_transp [OF transp_greater])
  have "x \<noteq> y"
    unfolding x_def y_def using nth_eq_iff_index_eq [OF pd, of i j] si jn pl ij by simp
  with xj have xy: "x < y" by (simp add: x_def y_def)
  have yin: "y \<in> set d" using j'l dj' nth_mem by metis
  have tail: "d ! l < x" if "j' < l" "l < length d" for l
  proof -
    have "j < Suc i + l \<and> Suc i + l < n" using that ld ij unfolding j'_def by arith
    with after have "p ! (Suc i + l) < p ! i" by blast
    then show ?thesis using dn [OF that(2)] by (simp add: x_def)
  qed
  have ymin: "\<forall>e\<in>set d. x < e \<longrightarrow> y \<le> e"
  proof (intro ballI impI)
    fix e assume "e \<in> set d" "x < e"
    then obtain l where l: "l < length d" "e = d ! l" by (auto simp: in_set_conv_nth)
    have "\<not> j' < l" using tail [of l] l \<open>x < e\<close> by auto
    then consider "l = j'" | "l < j'" by linarith
    then show "y \<le> e"
    proof cases
      case 1 with l dj' show ?thesis by simp
    next
      case 2
      from sorted_wrt_nth_less [OF dsorted 2 j'l] dj' l show ?thesis by simp
    qed
  qed
  define s where "s = rev (d[j' := x])"
  have "sorted_wrt (>) (d[j' := x])"
    unfolding sorted_wrt_iff_nth_less
  proof (intro allI impI)
    fix l1 l2 assume l: "l1 < l2" "l2 < length (d[j' := x])"
    then have l2: "l2 < length d" and l1: "l1 < length d" by simp_all
    consider "l1 = j'" | "l2 = j'" | "l1 \<noteq> j'" "l2 \<noteq> j'" using l(1) by blast
    then show "d[j' := x] ! l1 > d[j' := x] ! l2"
    proof cases
      case 1
      then have "j' < l2" using l(1) by simp
      from tail [OF this l2] 1 l1 l(1) j'l show ?thesis by simp
    next
      case 2
      then have "l1 < j'" using l(1) by simp
      from sorted_wrt_nth_less [OF dsorted this j'l] dj' xy 2 l1 l(1) j'l show ?thesis by simp
    next
      case 3
      from sorted_wrt_nth_less [OF dsorted l(1) l2] 3 show ?thesis by simp
    qed
  qed
  then have ssorted: "sorted_wrt (<) s" by (simp add: s_def sorted_wrt_rev)
  have sset: "set s = insert x (set d - {y})"
    using set_update_distinct [OF dd j'l, of x] dj' by (simp add: s_def)
  have slen: "length s = length d" by (simp add: s_def)
  let ?q = "p[i := y, j := x]"
  have "take (Suc i) ?q = take (Suc i) (p[i := y])" using ij by simp
  also have "\<dots> = take i (p[i := y]) @ [p[i := y] ! i]"
    using si pl by (intro take_Suc_conv_app_nth) simp
  also have "\<dots> = a @ [y]" using si pl by (simp add: a_def)
  finally have tq: "take (Suc i) ?q = a @ [y]" .
  have "drop (Suc i) ?q = (drop (Suc i) (p[i := y]))[j - Suc i := x]"
    using ij by (rule drop_update_swap)
  also have "\<dots> = d[j' := x]" by (simp add: d_def j'_def)
  finally have dq: "drop (Suc i) ?q = d[j' := x]" .
  have "length ?q = n" using pl by simp
  from reverse_loop_rev [OF this, of i] si
  have rq: "reverse_loop ?q n i (Suc i) = a @ y # s"
    unfolding tq dq by (simp add: s_def)
  have nxt: "PermutationIterator_next \<lparr>pi_objs = objs, pi_perm = p, pi_generator_state = 1\<rparr>
                 = \<lparr>pi_objs = objs, pi_perm = a @ y # s, pi_generator_state = 1\<rparr>"
    using fi fj pl rq by (simp add: PermutationIterator_next_def Let_def x_def y_def)
  have mem: "a @ y # s \<in> permutation_tuples n"
  proof (rule permutation_tuples_intro)
    show "length (a @ y # s) = n" using slen ld si pl by (simp add: a_def)
    have "set (a @ y # s) = set (a @ x # d)" using sset yin by auto
    then show "set (a @ y # s) = {0..<int n}" using ps pdec by simp
  qed
  have less: "p < a @ y # s"
    using xy by (subst pdec) (simp add: lex_append_same_less)
  have least: "\<forall>r\<in>permutation_tuples n. p < r \<longrightarrow> a @ y # s \<le> r"
  proof (intro ballI impI)
    fix r assume r: "r \<in> permutation_tuples n" and pr: "p < r"
    have "distinct (a @ x # d)" using pd pdec by simp
    moreover have "distinct r" using r by (simp add: permutation_tuples_def)
    moreover have "set r = set (a @ x # d)"
      using permutation_tuples_set [OF r] ps pdec by simp
    moreover have "length r = length (a @ x # d)"
      using r pl pdec by (simp add: permutation_tuples_def)
    moreover have "a @ x # d < r" using pr pdec by simp
    ultimately show "a @ y # s \<le> r"
      by (rule next_permutation_least [OF dsorted yin xy ymin ssorted sset slen])
  qed
  from nxt mem less least show ?thesis by blast
qed

text \<open>Pulls on an iterator whose index tuple is a permutation.\<close>

lemma card_permutation_tuples: "card (permutation_tuples n) = fact n"
proof -
  have "card {xs. length xs = n \<and> distinct xs \<and> set xs \<subseteq> {0..<int n}}
      = \<Prod>{card {0..<int n} - n + 1 .. card {0..<int n}}"
    by (rule card_lists_distinct_length_eq) simp_all
  also have "\<dots> = \<Prod>{1..n}" by simp
  also have "\<dots> = fact n" by (simp add: fact_prod)
  finally show ?thesis by (simp add: permutation_tuples_def)
qed

lemma finite_permutation_tuples: "finite (permutation_tuples n)"
proof -
  have "permutation_tuples n \<subseteq> {xs. set xs \<subseteq> {0..<int n} \<and> length xs = n}"
    by (auto simp: permutation_tuples_def)
  moreover have "finite {xs. set xs \<subseteq> {0..<int n} \<and> length xs = n}"
    by (rule finite_lists_length_eq) simp
  ultimately show ?thesis by (rule finite_subset)
qed

lemma permutation_list:
  "set (sorted_list_of_set (permutation_tuples n)) = permutation_tuples n"
  "sorted_wrt (<) (sorted_list_of_set (permutation_tuples n))"
  "length (sorted_list_of_set (permutation_tuples n)) = fact n"
proof -
  show "set (sorted_list_of_set (permutation_tuples n)) = permutation_tuples n"
    using finite_permutation_tuples by (rule set_sorted_list_of_set)
  show "sorted_wrt (<) (sorted_list_of_set (permutation_tuples n))"
    by (rule strict_sorted_list_of_set)
  have "length (sorted_list_of_set (permutation_tuples n)) = card (permutation_tuples n)"
    by (rule length_sorted_list_of_set)
  then show "length (sorted_list_of_set (permutation_tuples n)) = fact n"
    by (simp only: card_permutation_tuples)
qed

lemma permutation_gather:
  assumes "p \<in> permutation_tuples n" "length objs = n"
  shows "map_to_tuple p objs = Inr (map (\<lambda>i. objs ! nat i) p)"
  using assms by (intro map_to_tuple_ok) (auto simp: permutation_tuples_def)

lemma permutation_first:
  "map int [0..<n] \<in> permutation_tuples n"
  "\<forall>r\<in>permutation_tuples n. map int [0..<n] \<le> r"
proof -
  show mem: "map int [0..<n] \<in> permutation_tuples n"
    by (auto simp: permutation_tuples_def distinct_map inj_on_def)
  have asc: "sorted_wrt (<) (map int [0..<n])"
    by (simp add: sorted_wrt_iff_nth_less)
  show "\<forall>r\<in>permutation_tuples n. map int [0..<n] \<le> r"
  proof
    fix r assume r: "r \<in> permutation_tuples n"
    then have "distinct r" "length r = length (map int [0..<n])"
      by (simp_all add: permutation_tuples_def)
    moreover have "set r = set (map int [0..<n])"
      using permutation_tuples_set [OF r] permutation_tuples_set [OF mem] by simp
    ultimately show "map int [0..<n] \<le> r" using ascending_least [OF asc] by blast
  qed
qed

lemma gather_identity: "map (\<lambda>i. objs ! nat i) (map int [0..<length objs]) = objs"
  by (simp add: map_nth o_def)

lemma permutation_pull_first:
  assumes "p \<in> permutation_tuples n" "length objs = n"
  shows "PermutationIterator_dunder_next \<lparr>pi_objs = objs, pi_perm = p, pi_generator_state = 0\<rparr>
     = (Inr (map (\<lambda>i. objs ! nat i) p),
        \<lparr>pi_objs = objs, pi_perm = p, pi_generator_state = (if n = 1 then 2 else 1)\<rparr>)"
proof -
  have "length p = n" using assms(1) by (simp add: permutation_tuples_def)
  then show ?thesis
    using permutation_gather [OF assms]
    by (simp add: PermutationIterator_dunder_next_def PermutationIterator_current_def Let_def)
qed

lemma permutation_pull_done:
  "PermutationIterator_dunder_next \<lparr>pi_objs = objs, pi_perm = p, pi_generator_state = 2\<rparr>
     = (Inl StopIteration, \<lparr>pi_objs = objs, pi_perm = p, pi_generator_state = 2\<rparr>)"
  by (simp add: PermutationIterator_dunder_next_def)

lemma permutation_pull_mid:
  assumes m: "Suc m < fact n" and objs: "length objs = n"
  shows "PermutationIterator_dunder_next
           \<lparr>pi_objs = objs, pi_perm = sorted_list_of_set (permutation_tuples n) ! m,
            pi_generator_state = 1\<rparr>
     = (Inr (map (\<lambda>i. objs ! nat i) (sorted_list_of_set (permutation_tuples n) ! Suc m)),
        \<lparr>pi_objs = objs, pi_perm = sorted_list_of_set (permutation_tuples n) ! Suc m,
         pi_generator_state = 1\<rparr>)"
proof -
  let ?L = "sorted_list_of_set (permutation_tuples n)"
  note L = permutation_list [of n]
  have tm: "?L ! m \<in> permutation_tuples n" using m L(1,3) nth_mem [of m ?L] by simp
  have notlast: "\<not> (\<forall>r\<in>set ?L. r \<le> ?L ! m)"
    using L(2) m L(3) by (intro strict_sorted_not_last) simp_all
  have "find_i (?L ! m) (n - 1) \<noteq> None"
    using permutation_next_None(2) [OF tm] notlast L(1) by auto
  then obtain i where i: "find_i (?L ! m) (n - 1) = Some i" by auto
  from permutation_next_Some [OF tm i, of objs]
  obtain p' where p': "PermutationIterator_next \<lparr>pi_objs = objs, pi_perm = ?L ! m, pi_generator_state = 1\<rparr>
                 = \<lparr>pi_objs = objs, pi_perm = p', pi_generator_state = 1\<rparr>"
    "p' \<in> permutation_tuples n" "?L ! m < p'"
    "\<forall>r\<in>permutation_tuples n. ?L ! m < r \<longrightarrow> p' \<le> r" by blast
  have "?L ! Suc m = p'"
    using L(2) _ _ p'(3)
  proof (rule strict_sorted_succ_unique)
    show "Suc m < length ?L" using m L(3) by simp
    show "p' \<in> set ?L" using p'(2) L(1) by simp
    show "\<forall>r\<in>set ?L. ?L ! m < r \<longrightarrow> p' \<le> r" using p'(4) L(1) by simp
  qed
  then have nx: "PermutationIterator_next \<lparr>pi_objs = objs, pi_perm = ?L ! m, pi_generator_state = 1\<rparr>
                 = \<lparr>pi_objs = objs, pi_perm = ?L ! Suc m, pi_generator_state = 1\<rparr>"
    and mem: "?L ! Suc m \<in> permutation_tuples n" using p'(1,2) by simp_all
  show ?thesis
    using permutation_gather [OF mem objs]
    by (simp add: PermutationIterator_dunder_next_def
          [of "\<lparr>pi_objs = objs, pi_perm = ?L ! m, pi_generator_state = 1\<rparr>"] nx Let_def
        PermutationIterator_current_def)
qed

lemma permutation_pull_last:
  assumes m: "Suc m = fact n"
  shows "PermutationIterator_dunder_next
           \<lparr>pi_objs = objs, pi_perm = sorted_list_of_set (permutation_tuples n) ! m,
            pi_generator_state = 1\<rparr>
     = (Inl StopIteration,
        \<lparr>pi_objs = objs, pi_perm = sorted_list_of_set (permutation_tuples n) ! m,
         pi_generator_state = 2\<rparr>)"
proof -
  let ?L = "sorted_list_of_set (permutation_tuples n)"
  note L = permutation_list [of n]
  have mN: "m < fact n" using m by simp
  have tm: "?L ! m \<in> permutation_tuples n" using mN L(1,3) nth_mem [of m ?L] by simp
  have "find_i (?L ! m) (n - 1) = None"
  proof (rule ccontr)
    assume "find_i (?L ! m) (n - 1) \<noteq> None"
    then obtain i where i: "find_i (?L ! m) (n - 1) = Some i" by auto
    from permutation_next_Some [OF tm i, of objs]
    obtain p' where p': "p' \<in> permutation_tuples n" "?L ! m < p'" by blast
    have "p' \<le> ?L ! m"
      using L(2) _ _
    proof (rule strict_sorted_last)
      show "Suc m = length ?L" using m L(3) by simp
      show "p' \<in> set ?L" using p'(1) L(1) by simp
    qed
    with p'(2) show False by simp
  qed
  from permutation_next_None(1) [OF tm this, of objs] show ?thesis
    by (simp add: PermutationIterator_dunder_next_def
          [of "\<lparr>pi_objs = objs, pi_perm = ?L ! m, pi_generator_state = 1\<rparr>"] Let_def)
qed

lemma permutation_run:
  assumes objs: "length objs = n" and n1: "n \<noteq> 1"
  shows "m < fact n \<Longrightarrow>
    PermutationIterator_pulls (Suc m) (PermutationIterator_init objs)
      = \<lparr>pi_objs = objs, pi_perm = sorted_list_of_set (permutation_tuples n) ! m,
         pi_generator_state = 1\<rparr>"
proof (induction m)
  case 0
  let ?L = "sorted_list_of_set (permutation_tuples n)"
  note L = permutation_list [of n]
  note first = permutation_first [of n]
  have "?L ! 0 = map int [0..<n]"
    using L(2) first L(1) by (intro strict_sorted_first) simp_all
  then show ?case
    using permutation_pull_first [OF first(1) objs] n1 objs
    by (simp add: PermutationIterator_init_def)
next
  case (Suc m)
  then have "PermutationIterator_pulls (Suc m) (PermutationIterator_init objs)
      = \<lparr>pi_objs = objs, pi_perm = sorted_list_of_set (permutation_tuples n) ! m,
         pi_generator_state = 1\<rparr>" by simp
  then show ?case
    using permutation_pull_mid [OF Suc.prems objs]
    by (simp only: PermutationIterator_pulls.simps snd_conv)
qed

lemma permutation_run_done:
  assumes objs: "length objs = n" and n1: "n \<noteq> 1"
  shows "PermutationIterator_pulls (Suc (fact n + d)) (PermutationIterator_init objs)
      = \<lparr>pi_objs = objs, pi_perm = sorted_list_of_set (permutation_tuples n) ! (fact n - 1),
         pi_generator_state = 2\<rparr>"
proof (induction d)
  case 0
  have pos: "0 < (fact n :: nat)" by simp
  then obtain N' where N': "(fact n :: nat) = Suc N'" by (cases "fact n :: nat") auto
  then have "N' < fact n" by simp
  from permutation_run [OF objs n1 this]
  have "PermutationIterator_pulls (fact n) (PermutationIterator_init objs)
      = \<lparr>pi_objs = objs, pi_perm = sorted_list_of_set (permutation_tuples n) ! N',
         pi_generator_state = 1\<rparr>"
    unfolding N' .
  moreover have "PermutationIterator_pulls (Suc (fact n + 0)) (PermutationIterator_init objs)
     = snd (PermutationIterator_dunder_next
              (PermutationIterator_pulls (fact n) (PermutationIterator_init objs)))" by simp
  moreover have "(fact n :: nat) - 1 = N'" using N' by simp
  ultimately show ?case
    using permutation_pull_last [OF N' [symmetric], of objs] by simp
next
  case (Suc d)
  have "PermutationIterator_pulls (Suc (fact n + Suc d)) (PermutationIterator_init objs)
     = snd (PermutationIterator_dunder_next
              (PermutationIterator_pulls (Suc (fact n + d)) (PermutationIterator_init objs)))"
    by simp
  then show ?case unfolding Suc.IH permutation_pull_done by simp
qed

lemma permutation_run_one:
  assumes objs: "length objs = 1"
  shows "PermutationIterator_pulls (Suc m) (PermutationIterator_init objs)
      = \<lparr>pi_objs = objs, pi_perm = map int [0..<1], pi_generator_state = 2\<rparr>"
proof (induction m)
  case 0
  show ?case
    using permutation_pull_first [OF permutation_first(1) [of 1] objs] objs
    by (simp add: PermutationIterator_init_def)
next
  case (Suc m)
  have "PermutationIterator_pulls (Suc (Suc m)) (PermutationIterator_init objs)
     = snd (PermutationIterator_dunder_next
              (PermutationIterator_pulls (Suc m) (PermutationIterator_init objs)))"
    by simp
  then show ?case unfolding Suc.IH permutation_pull_done by simp
qed

text \<open>
  Claim C1: for every item sequence of length \<open>n \<ge> 1\<close> the iterator produces exactly
  \<open>n!\<close> tuples; the first one is the item sequence itself (the identity gathering);
  the index tuples behind the \<open>n!\<close> pulls are permutations of \<open>{0, \<dots>, n-1}\<close>,
  strictly increasing in the lexicographic order, hence without duplicates, and they
  are all the permutations; each pull returns the items at its index tuple; every
  pull after the last tuple signals the end of the sequence. The entries of \<open>perm\<close>
  are only compared and exchanged, and the loop counters stay between \<open>-2\<close> and \<open>n\<close>,
  so no C arithmetic can overflow for a sequence whose length fits an \<open>int\<close>.
\<close>

theorem PermutationIterator_enumerates:
  assumes "1 \<le> length objs"
  shows "fst (PermutationIterator_dunder_next (PermutationIterator_init objs)) = Inr objs
    \<and> set (map (\<lambda>m. pi_perm (PermutationIterator_pulls (Suc m) (PermutationIterator_init objs)))
              [0..<fact (length objs)])
         = permutation_tuples (length objs)
    \<and> sorted_wrt (<)
         (map (\<lambda>m. pi_perm (PermutationIterator_pulls (Suc m) (PermutationIterator_init objs)))
              [0..<fact (length objs)])
    \<and> (\<forall>m < fact (length objs).
          fst (PermutationIterator_dunder_next
                 (PermutationIterator_pulls m (PermutationIterator_init objs)))
            = Inr (map (\<lambda>i. objs ! nat i)
                     (pi_perm (PermutationIterator_pulls (Suc m) (PermutationIterator_init objs)))))
    \<and> (\<forall>m \<ge> fact (length objs).
          fst (PermutationIterator_dunder_next
                 (PermutationIterator_pulls m (PermutationIterator_init objs)))
            = Inl StopIteration)"
proof -
  define n where "n = length objs"
  have objs: "length objs = n" by (simp add: n_def)
  let ?s = "PermutationIterator_init objs"
  let ?L = "sorted_list_of_set (permutation_tuples n)"
  let ?N = "fact n :: nat"
  note L = permutation_list [of n]
  note first = permutation_first [of n]
  have L0: "?L ! 0 = map int [0..<n]"
    using L(2) first L(1) by (intro strict_sorted_first) simp_all
  have init: "?s = \<lparr>pi_objs = objs, pi_perm = map int [0..<n], pi_generator_state = 0\<rparr>"
    by (simp add: PermutationIterator_init_def n_def)
  have pull0: "PermutationIterator_dunder_next ?s
     = (Inr objs, \<lparr>pi_objs = objs, pi_perm = map int [0..<n],
                   pi_generator_state = (if n = 1 then 2 else 1)\<rparr>)"
    unfolding init using permutation_pull_first [OF first(1) objs] gather_identity [of objs]
    by (simp add: n_def)
  have perm: "pi_perm (PermutationIterator_pulls (Suc m) ?s) = ?L ! m" if m: "m < ?N" for m
  proof (cases "n = 1")
    case True
    with m have "m = 0" by simp
    then show ?thesis using permutation_run_one [of objs 0] True objs L0 by simp
  next
    case False
    from permutation_run [OF objs False m] show ?thesis by simp
  qed
  have Ts: "map (\<lambda>m. pi_perm (PermutationIterator_pulls (Suc m) ?s)) [0..<?N] = ?L"
    using L(3) perm by (intro nth_equalityI) simp_all
  have res: "fst (PermutationIterator_dunder_next (PermutationIterator_pulls m ?s))
            = Inr (map (\<lambda>i. objs ! nat i) (pi_perm (PermutationIterator_pulls (Suc m) ?s)))"
    if m: "m < ?N" for m
  proof (cases m)
    case 0
    show ?thesis unfolding 0 using pull0 gather_identity [of objs] by (simp add: n_def)
  next
    case (Suc m')
    then have n1: "n \<noteq> 1" using m by auto
    have "PermutationIterator_pulls (Suc m') ?s
        = \<lparr>pi_objs = objs, pi_perm = ?L ! m', pi_generator_state = 1\<rparr>"
      using permutation_run [OF objs n1, of m'] m Suc by simp
    then show ?thesis unfolding Suc
      using permutation_pull_mid [OF _ objs, of m'] m Suc by simp
  qed
  have stop: "fst (PermutationIterator_dunder_next (PermutationIterator_pulls m ?s))
            = Inl StopIteration" if m: "?N \<le> m" for m
  proof (cases "n = 1")
    case True
    with m obtain m' where m': "m = Suc m'" by (cases m) auto
    show ?thesis unfolding m' using permutation_run_one [of objs m'] True objs
      by (simp add: permutation_pull_done del: PermutationIterator_pulls.simps)
  next
    case False
    note n1 = this
    show ?thesis
    proof (cases "m = ?N")
      case True
      obtain N' where N': "?N = Suc N'" by (cases "?N") auto
      then have "N' < ?N" by simp
      from permutation_run [OF objs n1 this]
      have "PermutationIterator_pulls m ?s
         = \<lparr>pi_objs = objs, pi_perm = ?L ! N', pi_generator_state = 1\<rparr>"
        unfolding True N' .
      then show ?thesis
        using permutation_pull_last [OF N' [symmetric], of objs] by simp
    next
      case False
      with m have "Suc ?N \<le> m" by simp
      then obtain d0 where "m = Suc ?N + d0" using le_Suc_ex by blast
      then obtain d where d: "m = Suc (?N + d)" by simp
      show ?thesis unfolding d permutation_run_done [OF objs n1] permutation_pull_done by simp
    qed
  qed
  show ?thesis
    unfolding n_def [symmetric]
  proof (intro conjI)
    show "fst (PermutationIterator_dunder_next ?s) = Inr objs" using pull0 by simp
    show "set (map (\<lambda>m. pi_perm (PermutationIterator_pulls (Suc m) ?s)) [0..<?N])
         = permutation_tuples n" unfolding Ts by (rule L(1))
    show "sorted_wrt (<) (map (\<lambda>m. pi_perm (PermutationIterator_pulls (Suc m) ?s)) [0..<?N])"
      unfolding Ts by (rule L(2))
    show "\<forall>m < ?N. fst (PermutationIterator_dunder_next (PermutationIterator_pulls m ?s))
            = Inr (map (\<lambda>i. objs ! nat i) (pi_perm (PermutationIterator_pulls (Suc m) ?s)))"
      by (intro allI impI) (rule res)
    show "\<forall>m \<ge> ?N. fst (PermutationIterator_dunder_next (PermutationIterator_pulls m ?s))
            = Inl StopIteration" by (intro allI impI) (rule stop)
  qed
qed

theorem PermutationIterator_enumerates_witness:
  "fst (PermutationIterator_dunder_next (PermutationIterator_init ''ab'')) = Inr ''ab''
   \<and> fst (PermutationIterator_dunder_next
            (PermutationIterator_pulls 2 (PermutationIterator_init ''ab''))) = Inl StopIteration"
proof -
  have h: "1 \<le> length ''ab''" by simp
  have f: "fact (length ''ab'') = (2::nat)" by (simp add: numeral_2_eq_2)
  note t = PermutationIterator_enumerates [OF h, unfolded f]
  from t have a: "fst (PermutationIterator_dunder_next (PermutationIterator_init ''ab'')) = Inr ''ab''"
    by (rule conjunct1)
  from t have "\<forall>m \<ge> 2. fst (PermutationIterator_dunder_next
                 (PermutationIterator_pulls m (PermutationIterator_init ''ab'')))
            = Inl StopIteration" by (elim conjE)
  then have "fst (PermutationIterator_dunder_next
            (PermutationIterator_pulls 2 (PermutationIterator_init ''ab''))) = Inl StopIteration"
    by blast
  with a show ?thesis by (rule conjI)
qed

end
